theory Spec2Isabelle
  imports Main
begin

section \<open>Tree nodes\<close>

text \<open>
  A tree node of the sitemap visualizer is a JavaScript object
  \<^verbatim>\<open>{ name, url, path, children, screenshot }\<close>; the ellipsis nodes made by
  \<^verbatim>\<open>collapseTree\<close> and \<^verbatim>\<open>performExpand\<close> carry in addition \<^verbatim>\<open>isEllipsis\<close>,
  \<^verbatim>\<open>hiddenChildren\<close>, \<^verbatim>\<open>parentPath\<close> and \<^verbatim>\<open>expandBatchSize\<close>.

  \<^item> \<^verbatim>\<open>url\<close> and \<^verbatim>\<open>screenshot\<close> are a string or \<^verbatim>\<open>null\<close>: \<open>string option\<close>.
  \<^item> On an ordinary node the four ellipsis fields are absent. The code reads them
    only through \<^verbatim>\<open>d.data.isEllipsis\<close> (absent is falsy), \<^verbatim>\<open>hiddenChildren || []\<close>
    and \<^verbatim>\<open>expandBatchSize || 5\<close>, so absent is modelled by \<open>False\<close>, \<open>[]\<close>
    and \<open>0\<close>; an absent \<^verbatim>\<open>parentPath\<close> is \<open>None\<close>.
\<close>

datatype node = Node
  (name: string)
  (url: "string option")
  (path: string)
  (children: "node list")
  (screenshot: "string option")
  (isEllipsis: bool)
  (hiddenChildren: "node list")
  (parentPath: "string option")
  (expandBatchSize: nat)

text \<open>JavaScript truthiness of a string-or-null value: \<^verbatim>\<open>null\<close> and \<^verbatim>\<open>''\<close> are falsy.\<close>

fun truthy :: "string option \<Rightarrow> bool" where
  "truthy None = False"
| "truthy (Some s) = (s \<noteq> [])"

text \<open>All nodes reachable through \<^verbatim>\<open>children\<close>, in depth-first pre-order.\<close>

fun nodes :: "node \<Rightarrow> node list" where
  "nodes (Node nm u p cs s ie hs pp bs) =
     Node nm u p cs s ie hs pp bs # concat (map nodes cs)"

section \<open>Array slicing and number formatting\<close>

text \<open>
  \<^verbatim>\<open>Array.prototype.slice\<close>: a negative index counts from the end, and every index is
  clamped to the array.
\<close>

definition js_index :: "nat \<Rightarrow> int \<Rightarrow> nat" where
  "js_index len i = (if i < 0 then nat (max (int len + i) 0) else min (nat i) len)"

definition slice :: "'a list \<Rightarrow> int \<Rightarrow> int \<Rightarrow> 'a list" where
  "slice xs start end =
     take (js_index (length xs) end - js_index (length xs) start)
          (drop (js_index (length xs) start) xs)"

definition slice_from :: "'a list \<Rightarrow> int \<Rightarrow> 'a list" where
  "slice_from xs start = drop (js_index (length xs) start) xs"

definition digit_char :: "nat \<Rightarrow> char" where
  "digit_char d = char_of (48 + d)"

function string_of_nat :: "nat \<Rightarrow> string" where
  "string_of_nat n =
     (if n < 10 then [digit_char n] else string_of_nat (n div 10) @ [digit_char (n mod 10)])"
  by pat_completeness auto
termination
  by (relation "measure id") auto

section \<open>Tree Collapser (report.js, collapseTree)\<close>

text \<open>
  The ellipsis object literal that \<^verbatim>\<open>collapseTree\<close> and \<^verbatim>\<open>performExpand\<close> both
  build: owner path \<open>p\<close>, hidden nodes \<open>hidden\<close>.
\<close>

definition ellipsisNode :: "string \<Rightarrow> node list \<Rightarrow> node" where
  "ellipsisNode p hidden =
     Node (''... +'' @ string_of_nat (length hidden) @ '' more'') None (p @ ''_more/'')
          [] None True hidden (Some p) 5"

text \<open>
  \<^verbatim>\<open>collapseTree(node, maxChildren)\<close> assigns \<^verbatim>\<open>node.children\<close> and returns
  \<^verbatim>\<open>node\<close> itself. The function below gives the value of that object after the
  call, which is also the value returned.
\<close>

fun collapseTree :: "int \<Rightarrow> node \<Rightarrow> node" where
  "collapseTree maxChildren (Node nm u p cs s ie hs pp bs) =
     (if cs = [] then Node nm u p cs s ie hs pp bs
      else
        let cs' = map (collapseTree maxChildren) cs in
        if int (length cs') > maxChildren then
          let visibleCount = maxChildren - 1;
              visibleChildren = slice cs' 0 visibleCount;
              hidden = slice_from cs' visibleCount
          in Node nm u p (visibleChildren @ [ellipsisNode p hidden]) s ie hs pp bs
        else Node nm u p cs' s ie hs pp bs)"

section \<open>Attaching screenshots\<close>

text \<open>
  \<^verbatim>\<open>attachScreenshotsToTree(node, screenshotMap)\<close> of the service worker takes a
  \<^verbatim>\<open>Map\<close> from url to image-or-null (a failed capture is stored as \<^verbatim>\<open>null\<close>):
  \<open>m u = None\<close> is \<^verbatim>\<open>!screenshotMap.has(u)\<close>. The function returns the node after
  the in-place update.
\<close>

fun attachScreenshotsToTree :: "(string \<rightharpoonup> string option) \<Rightarrow> node \<Rightarrow> node" where
  "attachScreenshotsToTree m (Node nm u p cs s ie hs pp bs) =
     Node nm u p (map (attachScreenshotsToTree m) cs)
       (case u of
          None \<Rightarrow> s
        | Some a \<Rightarrow> (if a \<noteq> [] then (case m a of None \<Rightarrow> s | Some img \<Rightarrow> img) else s))
       ie hs pp bs"

text \<open>
  \<^verbatim>\<open>attachScreenshotsToNodes(nodes, screenshotMap)\<close> of the report page takes a plain
  object and tests \<^verbatim>\<open>screenshotMap[node.url]\<close> for truthiness. Node urls are absolute
  URLs, never the name of a property inherited from \<^verbatim>\<open>Object.prototype\<close>, so the
  property read is the lookup of an own property.
\<close>

fun attachScreenshotsToNode :: "(string \<rightharpoonup> string option) \<Rightarrow> node \<Rightarrow> node" where
  "attachScreenshotsToNode m (Node nm u p cs s ie hs pp bs) =
     Node nm u p (map (attachScreenshotsToNode m) cs)
       (case u of
          None \<Rightarrow> s
        | Some a \<Rightarrow>
            (if a \<noteq> [] then
               (case m a of None \<Rightarrow> s | Some img \<Rightarrow> (if truthy img then img else s))
             else s))
       ie hs pp bs"

definition attachScreenshotsToNodes :: "(string \<rightharpoonup> string option) \<Rightarrow> node list \<Rightarrow> node list" where
  "attachScreenshotsToNodes m ns = map (attachScreenshotsToNode m) ns"

text \<open>
  The node with every screenshot field reachable through \<^verbatim>\<open>children\<close> set to
  \<^verbatim>\<open>null\<close>: what is left is the name, url, path and the child structure, with the
  ellipsis fields as they are.
\<close>

fun eraseScreenshots :: "node \<Rightarrow> node" where
  "eraseScreenshots (Node nm u p cs s ie hs pp bs) =
     Node nm u p (map eraseScreenshots cs) None ie hs pp bs"

text \<open>
  The screenshot a node is expected to carry after attaching the map \<open>m\<close>: the map's
  value when the node's url is a key of the map, the old screenshot otherwise. The
  report page's variant also keeps the old screenshot when the map's value is falsy.
\<close>

definition treeShot :: "(string \<rightharpoonup> string option) \<Rightarrow> node \<Rightarrow> string option" where
  "treeShot m n =
     (if truthy (url n) \<and> the (url n) \<in> dom m then the (m (the (url n))) else screenshot n)"

definition nodesShot :: "(string \<rightharpoonup> string option) \<Rightarrow> node \<Rightarrow> string option" where
  "nodesShot m n =
     (if truthy (url n) \<and> the (url n) \<in> dom m \<and> truthy (the (m (the (url n))))
      then the (m (the (url n))) else screenshot n)"

section \<open>Capture Orchestrator (service worker, captureScreenshotsDebugger)\<close>

text \<open>
  The orchestrator drives the browser through awaited calls. Its environment is
  modelled by three oracles:
  \<^item> \<open>setupError\<close>: the message of the first of the three set-up calls
    (\<^verbatim>\<open>chrome.tabs.create\<close>, \<^verbatim>\<open>chrome.debugger.attach\<close>, the viewport command) that
    rejects, if one does; the function then rejects with it;
  \<^item> \<open>shouldCancelAt i\<close>: the value of the global \<^verbatim>\<open>shouldCancel\<close> when the loop
    tests it at index \<open>i\<close> (a handler may set it between two awaits);
  \<^item> \<open>pageRender i u\<close>: the outcome of rendering url \<open>u\<close> at index \<open>i\<close>
    (navigate, wait for load, delay, capture): the base64 data, or the message of
    the error thrown.
  What the function does to the outside is kept in a log: each call of the progress
  callback (or of the default \<^verbatim>\<open>sendProgress\<close> when no callback is given) and each
  page render, in order.
\<close>

datatype captureResult = CaptureResult (r_url: string) (r_screenshot: "string option") (r_error: "string option")

datatype event =
    OnProgress nat nat string
  | SendProgress nat nat string
  | PageRender string

record renderer =
  setupError :: "string option"
  shouldCancelAt :: "nat \<Rightarrow> bool"
  pageRender :: "nat \<Rightarrow> string \<Rightarrow> string + string"

definition captureOne :: "renderer \<Rightarrow> nat \<Rightarrow> string \<Rightarrow> captureResult" where
  "captureOne env i u =
     (case pageRender env i u of
        Inr d \<Rightarrow> CaptureResult u (Some (''data:image/png;base64,'' @ d)) None
      | Inl msg \<Rightarrow> CaptureResult u None (Some msg))"

definition progressEvent :: "bool \<Rightarrow> nat \<Rightarrow> nat \<Rightarrow> string \<Rightarrow> event" where
  "progressEvent onProgress current tot u =
     (if onProgress then OnProgress current tot u else SendProgress current tot u)"

function captureLoop ::
  "renderer \<Rightarrow> bool \<Rightarrow> string list \<Rightarrow> nat \<Rightarrow> captureResult list \<times> event list
     \<Rightarrow> captureResult list \<times> event list" where
  "captureLoop env onProgress urls i (results, log) =
     (if i < length urls then
        (if shouldCancelAt env i then (results, log)
         else
           let u = urls ! i;
               log1 = log @ [progressEvent onProgress (i + 1) (length urls) u];
               log2 = log1 @ [PageRender u]
           in captureLoop env onProgress urls (i + 1) (results @ [captureOne env i u], log2))
      else (results, log))"
  by pat_completeness auto
termination
  by (relation "measure (\<lambda>(env, cb, urls, i, st). length urls - i)") auto

declare captureLoop.simps [simp del]

definition captureScreenshotsDebugger ::
  "renderer \<Rightarrow> bool \<Rightarrow> string list \<Rightarrow> string + (captureResult list \<times> event list)" where
  "captureScreenshotsDebugger env onProgress urls =
     (case setupError env of
        Some msg \<Rightarrow> Inl msg
      | None \<Rightarrow> Inr (captureLoop env onProgress urls 0 ([], [])))"

fun progressOf :: "event list \<Rightarrow> (nat \<times> nat \<times> string) list" where
  "progressOf [] = []"
| "progressOf (OnProgress c t u # es) = (c, t, u) # progressOf es"
| "progressOf (SendProgress c t u # es) = (c, t, u) # progressOf es"
| "progressOf (PageRender u # es) = progressOf es"

section \<open>URL Classifier and Representative Selector (service worker)\<close>

text \<open>
  \<^verbatim>\<open>new URL(url).pathname\<close> is the browser's URL parser. It is a parameter
  \<open>pathname\<close> of the functions below: \<open>None\<close> when the constructor throws, the
  path otherwise. \<^verbatim>\<open>path.split('/').filter(Boolean)\<close> is \<open>pathSegments\<close>.
\<close>

fun split_slash :: "string \<Rightarrow> string list" where
  "split_slash [] = [[]]"
| "split_slash (c # cs) =
     (if c = CHR ''/'' then [] # split_slash cs
      else (case split_slash cs of [] \<Rightarrow> [[c]] | w # ws \<Rightarrow> (c # w) # ws))"

definition pathSegments :: "string \<Rightarrow> string list" where
  "pathSegments p = filter (\<lambda>s. s \<noteq> []) (split_slash p)"

text \<open>
  The object \<^verbatim>\<open>{ url, path, depth, branch, segments }\<close> built for each parseable
  url (fields \<open>purl\<close> and \<open>ppath\<close> are its \<^verbatim>\<open>url\<close> and \<^verbatim>\<open>path\<close>).
\<close>

record parsedUrl =
  purl :: string
  ppath :: string
  depth :: nat
  branch :: string
  segments :: "string list"

definition parseOne :: "(string \<Rightarrow> string option) \<Rightarrow> string \<Rightarrow> parsedUrl option" where
  "parseOne pathname u =
     (case pathname u of
        None \<Rightarrow> None
      | Some p \<Rightarrow>
          let segs = pathSegments p in
          Some \<lparr> purl = u, ppath = p, depth = length segs,
                 branch = (case segs of [] \<Rightarrow> ''_root_'' | s # _ \<Rightarrow> s),
                 segments = segs \<rparr>)"

definition parseAll :: "(string \<Rightarrow> string option) \<Rightarrow> string list \<Rightarrow> parsedUrl list" where
  "parseAll pathname urls = List.map_filter (parseOne pathname) urls"

text \<open>
  Grouping into a \<^verbatim>\<open>Map\<close>: \<^verbatim>\<open>if (!m.has(k)) m.set(k, []); m.get(k).push(v)\<close>.
  A \<^verbatim>\<open>Map\<close> iterates in insertion order, so it is an association list whose keys
  are in order of first occurrence.
\<close>

fun group_add :: "'k \<Rightarrow> 'v \<Rightarrow> ('k \<times> 'v list) list \<Rightarrow> ('k \<times> 'v list) list" where
  "group_add k v [] = [(k, [v])]"
| "group_add k v ((k', vs) # g) =
     (if k = k' then (k', vs @ [v]) # g else (k', vs) # group_add k v g)"

definition groupBy :: "('v \<Rightarrow> 'k) \<Rightarrow> 'v list \<Rightarrow> ('k \<times> 'v list) list" where
  "groupBy f xs = foldl (\<lambda>g x. group_add (f x) x g) [] xs"

datatype js_error = TypeError

definition allExhausted :: "(parsedUrl list \<times> nat) list \<Rightarrow> bool" where
  "allExhausted st = list_all (\<lambda>(us, pointer). pointer \<ge> length us) st"

text \<open>
  The quota \<^verbatim>\<open>Math.ceil((weights[i] / totalWeight) * remaining)\<close> is computed in
  floating point. It is a parameter \<open>ceilQuota weight totalWeight remaining\<close> of the
  selector; \<open>exact_quota\<close> is the exact ceiling, used to run examples.
\<close>

definition exact_quota :: "int \<Rightarrow> int \<Rightarrow> int \<Rightarrow> int" where
  "exact_quota w t r = - ((- (w * r)) div t)"


text \<open>
  The round-robin \<^verbatim>\<open>while\<close> loop over the branches of one depth. Its state \<open>st\<close>
  holds, for each branch in \<^verbatim>\<open>Map\<close> order, the branch's urls (\<^verbatim>\<open>byBranch.get(b)\<close>) and
  its pointer (\<^verbatim>\<open>branchPointers.get(b)\<close>). With no branch at all,
  \<^verbatim>\<open>branches[branchIndex % 0]\<close> is \<^verbatim>\<open>undefined\<close> and reading \<^verbatim>\<open>.length\<close> throws.

  The loop terminates: a turn on a branch that still has urls consumes one of them,
  and a turn on an exhausted branch brings the rotation one step closer to a branch
  that is not (one exists, or the loop has left through \<^verbatim>\<open>allExhausted\<close>).
\<close>

definition remainingWork :: "(parsedUrl list \<times> nat) list \<Rightarrow> nat" where
  "remainingWork st = sum_list (map (\<lambda>(us, pointer). length us - pointer) st)"

definition nonExhausted :: "(parsedUrl list \<times> nat) list \<Rightarrow> nat \<Rightarrow> bool" where
  "nonExhausted st k = (case st ! k of (us, pointer) \<Rightarrow> pointer < length us)"

definition turnsToNext :: "(parsedUrl list \<times> nat) list \<Rightarrow> nat \<Rightarrow> nat" where
  "turnsToNext st branchIndex =
     (LEAST d. nonExhausted st ((branchIndex + d) mod length st))"

lemma remainingWork_update:
  assumes "k < length st" "st ! k = (us, pointer)" "pointer < length us"
  shows "remainingWork (st[k := (us, pointer + 1)]) < remainingWork st"
proof -
  let ?f = "\<lambda>(us, pointer). length us - pointer :: nat"
  have "sum_list ((map ?f st)[k := ?f (us, pointer + 1)]) =
        sum_list (map ?f st) + ?f (us, pointer + 1) - (map ?f st) ! k"
    using assms(1) by (simp add: sum_list_update)
  moreover have "(map ?f st) ! k = length us - pointer" using assms by simp
  moreover have "(map ?f st) ! k \<in> set (map ?f st)"
    using assms(1) by (intro nth_mem) simp
  then have "(map ?f st) ! k \<le> sum_list (map ?f st)"
    by (simp add: member_le_sum_list)
  ultimately show ?thesis using assms(3)
    by (simp add: remainingWork_def map_update)
qed

lemma not_allExhausted:
  "\<not> allExhausted st \<Longrightarrow> \<exists>k < length st. nonExhausted st k"
  by (fastforce simp: allExhausted_def nonExhausted_def list_all_length case_prod_beta)

lemma turnsToNext_less:
  assumes "st \<noteq> []" "\<not> allExhausted st" "\<not> nonExhausted st (bi mod length st)"
  shows "turnsToNext st (bi + 1) < turnsToNext st bi"
proof -
  let ?n = "length st"
  let ?P = "\<lambda>d. nonExhausted st ((bi + d) mod ?n)"
  let ?Q = "\<lambda>d. nonExhausted st ((bi + 1 + d) mod ?n)"
  have n: "0 < ?n" using assms(1) by simp
  from not_allExhausted [OF assms(2)] obtain k where k: "k < ?n" "nonExhausted st k" by blast
  have "(bi + (k + ?n - bi mod ?n)) mod ?n = k"
  proof -
    define q where "q = bi div ?n"
    define r where "r = bi mod ?n"
    have r: "r < ?n" using n by (simp add: r_def)
    have "bi = q * ?n + r" by (simp add: q_def r_def)
    then have "bi + (k + ?n - r) = k + (q + 1) * ?n"
      using r by (simp add: algebra_simps)
    moreover have "(k + (q + 1) * ?n) mod ?n = k" by (subst mod_mult_self1) (simp add: k(1))
    ultimately have "(bi + (k + ?n - r)) mod ?n = k" by simp
    then show ?thesis by (simp add: r_def)
  qed
  then have ex: "?P (k + ?n - bi mod ?n)" using k(2) by simp
  have least: "?P (LEAST d. ?P d)" using ex by (rule LeastI)
  have "(LEAST d. ?P d) \<noteq> 0"
  proof
    assume "(LEAST d. ?P d) = 0"
    then have "?P 0" using least by simp
    then show False using assms(3) by simp
  qed
  then obtain m where m: "(LEAST d. ?P d) = Suc m" by (cases "LEAST d. ?P d") auto
  have "?Q m" using least m by simp
  then have "(LEAST d. ?Q d) \<le> m" by (rule Least_le)
  then show ?thesis using m by (simp add: turnsToNext_def)
qed


function roundRobin ::
  "int \<Rightarrow> int \<Rightarrow> (parsedUrl list \<times> nat) list \<Rightarrow> nat \<Rightarrow> int \<Rightarrow> string list
     \<Rightarrow> js_error + string list" where
  "roundRobin quota maxPages st branchIndex added selected =
     (if added < quota \<and> int (length selected) < maxPages then
        (if st = [] then Inl TypeError
         else
           let k = branchIndex mod length st;
               branchUrls = fst (st ! k);
               pointer = snd (st ! k);
               hit = pointer < length branchUrls;
               candidate = purl (branchUrls ! pointer);
               push = (hit \<and> candidate \<notin> set selected);
               selected' = (if push then selected @ [candidate] else selected);
               added' = (if push then added + 1 else added);
               st' = (if hit then st[k := (branchUrls, pointer + 1)] else st)
           in if allExhausted st' then Inr selected'
              else roundRobin quota maxPages st' (branchIndex + 1) added' selected')
      else Inr selected)"
  by pat_completeness auto
termination
proof (relation "measures
         [\<lambda>(quota, maxPages, st, branchIndex, added, selected). remainingWork st,
          \<lambda>(quota, maxPages, st, branchIndex, added, selected). turnsToNext st branchIndex]",
       goal_cases)
  case 1
  show ?case by simp
next
  case (2 quota maxPages st branchIndex added selected k branchUrls pointer hit candidate push selected' added' st')
  show ?case
  proof (cases hit)
    case True
    have "k < length st" using 2 by simp
    moreover have "st ! k = (branchUrls, pointer)" using 2 by simp
    ultimately have "remainingWork st' < remainingWork st"
      using remainingWork_update [of k st branchUrls pointer] True 2 by simp
    then show ?thesis by simp
  next
    case False
    then have same: "st' = st" using 2 by simp
    have "\<not> nonExhausted st (branchIndex mod length st)"
      using False 2 by (simp add: nonExhausted_def case_prod_beta)
    then have "turnsToNext st (branchIndex + 1) < turnsToNext st branchIndex"
      using turnsToNext_less [of st branchIndex] 2 same by simp
    then show ?thesis using same by simp
  qed
qed

declare roundRobin.simps [simp del]


text \<open>
  The loop over the sorted depths. \<^verbatim>\<open>byDepth.get(depth)\<close> of a missing key would be
  \<^verbatim>\<open>undefined\<close> and \<^verbatim>\<open>undefined.forEach\<close> throws; with \<^verbatim>\<open>quotas.get(depth)\<close>
  undefined the test \<^verbatim>\<open>added < quota\<close> is false and the depth adds nothing.
\<close>

definition weightOf :: "nat \<Rightarrow> int" where
  "weightOf d = max 1 (5 - int d)"

fun depthLoop ::
  "(nat \<times> parsedUrl list) list \<Rightarrow> (nat \<times> int) list \<Rightarrow> int \<Rightarrow> nat list \<Rightarrow> string list
     \<Rightarrow> js_error + string list" where
  "depthLoop byDepth quotas maxPages [] selected = Inr selected"
| "depthLoop byDepth quotas maxPages (d # ds) selected =
     (if int (length selected) \<ge> maxPages then Inr selected
      else
        (case map_of byDepth d of
           None \<Rightarrow> Inl TypeError
         | Some urlsAtDepth \<Rightarrow>
             (case map_of quotas d of
                None \<Rightarrow> depthLoop byDepth quotas maxPages ds selected
              | Some quota \<Rightarrow>
                  let byBranch = groupBy branch urlsAtDepth;
                      branchPointers = map (\<lambda>(b, us). (us, 0)) byBranch
                  in (case roundRobin quota maxPages branchPointers 0 0 selected of
                        Inl e \<Rightarrow> Inl e
                      | Inr selected' \<Rightarrow> depthLoop byDepth quotas maxPages ds selected'))))"

definition isHomepage :: "parsedUrl \<Rightarrow> bool" where
  "isHomepage p = (depth p = 0 \<or> ppath p = ''/'')"

definition selectRepresentativeUrls ::
  "(string \<Rightarrow> string option) \<Rightarrow> (int \<Rightarrow> int \<Rightarrow> int \<Rightarrow> int) \<Rightarrow> string list \<Rightarrow> int \<Rightarrow> string
     \<Rightarrow> js_error + string list" where
  "selectRepresentativeUrls pathname ceilQuota urls maxPages baseUrl =
     (let parsed = parseAll pathname urls;
          homepage = find isHomepage parsed;
          selected0 = (case homepage of None \<Rightarrow> [] | Some h \<Rightarrow> [purl h]);
          selected1 = (if baseUrl \<in> set selected0 then selected0 else selected0 @ [baseUrl]);
          byDepth = groupBy depth parsed;
          depths = sort (map fst byDepth);
          remaining = maxPages - int (length selected1);
          weights = map weightOf depths;
          totalWeight = sum_list weights;
          quotas = (if depths \<noteq> []
                    then map (\<lambda>(d, w). (d, ceilQuota w totalWeight remaining)) (zip depths weights)
                    else [])
      in case depthLoop byDepth quotas maxPages depths selected1 of
           Inl e \<Rightarrow> Inl e
         | Inr selected \<Rightarrow> Inr (slice selected 0 maxPages))"

text \<open>
  \<open>extends selected sel'\<close>: the selection \<open>sel'\<close> has no duplicates and starts with
  \<open>selected\<close>. \<open>homepageUrl\<close>: the url parses and has depth 0 or the exact path
  \<^verbatim>\<open>/\<close>.
\<close>

definition extends :: "string list \<Rightarrow> string list \<Rightarrow> bool" where
  "extends selected sel' = (distinct sel' \<and> (\<exists>extra. sel' = selected @ extra))"


section \<open>Tree Builder (service worker, buildUrlTree)\<close>

text \<open>
  \<^verbatim>\<open>buildUrlTree\<close> creates node objects, keeps them in \<^verbatim>\<open>nodeMap\<close> by path and
  updates them through the references it reads back from the map
  (\<^verbatim>\<open>parent.children.push(node)\<close>, \<^verbatim>\<open>exactNode.url = url\<close>). The model keeps the
  objects in a heap: the address of an object is its index in the list, a new object
  is appended, and \<^verbatim>\<open>children\<close> holds addresses. The root object has address 0.
\<close>

record obj =
  o_name :: string
  o_url :: "string option"
  o_path :: string
  o_children :: "nat list"
  o_screenshot :: "string option"

definition pushChild :: "nat \<Rightarrow> nat \<Rightarrow> obj list \<Rightarrow> obj list" where
  "pushChild parent a h = h[parent := (h ! parent)\<lparr> o_children := o_children (h ! parent) @ [a] \<rparr>]"

fun segmentLoop ::
  "string \<Rightarrow> nat \<Rightarrow> nat \<Rightarrow> string list \<Rightarrow> obj list \<times> (string \<rightharpoonup> nat) \<times> string \<times> nat
     \<Rightarrow> obj list \<times> (string \<rightharpoonup> nat) \<times> string \<times> nat" where
  "segmentLoop u n i [] st = st"
| "segmentLoop u n i (segment # rest) (h, nodeMap, currentPath, parent) =
     (let newPath = currentPath @ segment @ ''/'' in
      case nodeMap newPath of
        None \<Rightarrow>
          let isLeaf = (i + 1 = n);
              node = \<lparr> o_name = segment, o_url = (if isLeaf then Some u else None),
                       o_path = newPath, o_children = [], o_screenshot = None \<rparr>;
              a = length h
          in segmentLoop u n (i + 1) rest
               (pushChild parent a h @ [node], nodeMap(newPath \<mapsto> a), newPath, a)
      | Some a \<Rightarrow> segmentLoop u n (i + 1) rest (h, nodeMap, newPath, a))"

definition insertUrl ::
  "obj list \<times> (string \<rightharpoonup> nat) \<Rightarrow> string \<times> string \<times> nat \<Rightarrow> obj list \<times> (string \<rightharpoonup> nat)" where
  "insertUrl st entry =
     (case (st, entry) of ((h, nodeMap), (u, p, d)) \<Rightarrow>
        let segs = pathSegments p;
            (h1, nodeMap1, currentPath, parent) =
               segmentLoop u (length segs) 0 segs (h, nodeMap, ''/'', 0)
        in case nodeMap1 currentPath of
             None \<Rightarrow> (h1, nodeMap1)
           | Some a \<Rightarrow>
               if \<not> truthy (o_url (h1 ! a))
               then (h1[a := (h1 ! a)\<lparr> o_url := Some u \<rparr>], nodeMap1)
               else (h1, nodeMap1))"

text \<open>
  The list \<^verbatim>\<open>sortedUrls\<close> of \<^verbatim>\<open>{ url, path, depth }\<close>: unparseable urls are dropped,
  and \<^verbatim>\<open>Array.prototype.sort\<close> is stable, as \<open>sort_key\<close> is.
\<close>

definition parseForTree :: "(string \<Rightarrow> string option) \<Rightarrow> string \<Rightarrow> (string \<times> string \<times> nat) option" where
  "parseForTree pathname u =
     (case pathname u of None \<Rightarrow> None | Some p \<Rightarrow> Some (u, p, length (pathSegments p)))"

definition sortedUrls :: "(string \<Rightarrow> string option) \<Rightarrow> string list \<Rightarrow> (string \<times> string \<times> nat) list" where
  "sortedUrls pathname urls =
     sort_key (\<lambda>(u, p, d). d) (List.map_filter (parseForTree pathname) urls)"

text \<open>
  \<open>hostname\<close> is \<^verbatim>\<open>new URL(baseUrl).hostname\<close>, \<open>None\<close> when the constructor throws.
  The result is the heap after the loop; the function returns the root, address 0.
\<close>

definition buildUrlTree ::
  "(string \<Rightarrow> string option) \<Rightarrow> (string \<Rightarrow> string option) \<Rightarrow> string list \<Rightarrow> string
     \<Rightarrow> js_error + obj list" where
  "buildUrlTree hostname pathname urls baseUrl =
     (case hostname baseUrl of
        None \<Rightarrow> Inl TypeError
      | Some host \<Rightarrow>
          let root = \<lparr> o_name = host, o_url = Some baseUrl, o_path = ''/'', o_children = [],
                       o_screenshot = None \<rparr>
          in Inr (fst (foldl insertUrl ([root], [''/'' \<mapsto> 0]) (sortedUrls pathname urls))))"

text \<open>
  The tree below an address, read out of the heap as a \<open>node\<close> value. The fuel
  bounds the depth; \<open>treeOf\<close> reads the tree at the root with one unit of fuel per
  object, which is enough (children always have greater addresses than their parent).
\<close>

fun treeAt :: "nat \<Rightarrow> obj list \<Rightarrow> nat \<Rightarrow> node option" where
  "treeAt 0 h a = None"
| "treeAt (Suc n) h a =
     (if a < length h then
        (let cs = map (treeAt n h) (o_children (h ! a)) in
         if None \<in> set cs then None
         else Some (Node (o_name (h ! a)) (o_url (h ! a)) (o_path (h ! a)) (map the cs)
                      (o_screenshot (h ! a)) False [] None 0))
      else None)"

definition treeOf :: "obj list \<Rightarrow> node option" where
  "treeOf h = treeAt (length h) h 0"


text \<open>
  A path segment: non-empty and free of \<^verbatim>\<open>/\<close>. The invariant of the builder's heap and
  \<^verbatim>\<open>nodeMap\<close>: the map sends exactly the path of each object to its address, children
  lists have no repetition, and a child is a younger object whose path is its
  parent's path, its own name and \<^verbatim>\<open>/\<close>.
\<close>

definition seg :: "string \<Rightarrow> bool" where
  "seg s = (s \<noteq> [] \<and> CHR ''/'' \<notin> set s)"

definition heapInv :: "obj list \<Rightarrow> (string \<rightharpoonup> nat) \<Rightarrow> bool" where
  "heapInv h nodeMap =
     ((\<forall>p a. nodeMap p = Some a \<longrightarrow> a < length h \<and> o_path (h ! a) = p)
      \<and> (\<forall>a < length h. nodeMap (o_path (h ! a)) = Some a)
      \<and> (\<forall>a < length h. distinct (o_children (h ! a))
            \<and> (\<forall>c \<in> set (o_children (h ! a)).
                  a < c \<and> c < length h \<and> seg (o_name (h ! c))
                  \<and> o_path (h ! c) = o_path (h ! a) @ o_name (h ! c) @ ''/'')))"


definition buildInv :: "obj list \<times> (string \<rightharpoonup> nat) \<Rightarrow> bool" where
  "buildInv st = (heapInv (fst st) (snd st) \<and> snd st ''/'' = Some 0)"

text \<open>
  The TreeNode invariant of the data model, on a tree value: no ellipsis fields, sibling
  names distinct, and every child's path is its parent's path, its own name and
  \<^verbatim>\<open>/\<close>.
\<close>

fun sourceTree :: "node \<Rightarrow> bool" where
  "sourceTree (Node nm u p cs s ie hs pp bs) =
     (\<not> ie \<and> hs = [] \<and> distinct (map name cs)
      \<and> (\<forall>c \<in> set cs. seg (name c) \<and> path c = p @ name c @ ''/'' \<and> sourceTree c))"

section \<open>Expansion Controller (report.js)\<close>

text \<open>
  A reference to a node object of the display tree (a D3 node's \<^verbatim>\<open>data\<close>, the result
  of \<^verbatim>\<open>findNodeByPath\<close>) is the node's position: the child indices from the root.
  \<open>nodeAt\<close> reads the object at a position and \<open>updateAt\<close> is an in-place change of it.
\<close>

fun nodeAt :: "node \<Rightarrow> nat list \<Rightarrow> node option" where
  "nodeAt t [] = Some t"
| "nodeAt t (i # pos) =
     (if i < length (children t) then nodeAt (children t ! i) pos else None)"

fun updateAt :: "(node \<Rightarrow> node) \<Rightarrow> node \<Rightarrow> nat list \<Rightarrow> node" where
  "updateAt f t [] = f t"
| "updateAt f (Node nm u p cs s ie hs pp bs) (i # pos) =
     (if i < length cs then Node nm u p (cs[i := updateAt f (cs ! i) pos]) s ie hs pp bs
      else Node nm u p cs s ie hs pp bs)"

text \<open>
  \<^verbatim>\<open>findNodeByPath\<close>: depth-first, pre-order, the first node whose path is the target;
  the loop over the children returns the first child's result that is not \<^verbatim>\<open>null\<close>.
\<close>

fun firstFound :: "nat \<Rightarrow> nat list option list \<Rightarrow> nat list option" where
  "firstFound i [] = None"
| "firstFound i (None # rs) = firstFound (i + 1) rs"
| "firstFound i (Some pos # rs) = Some (i # pos)"

fun findNodeByPath :: "node \<Rightarrow> string \<Rightarrow> nat list option" where
  "findNodeByPath (Node nm u p cs s ie hs pp bs) targetPath =
     (if p = targetPath then Some []
      else firstFound 0 (map (\<lambda>child. findNodeByPath child targetPath) cs))"

text \<open>
  \<^verbatim>\<open>performExpand\<close>, on the display tree. \<^verbatim>\<open>findIndex(c => c.isEllipsis)\<close> and
  \<^verbatim>\<open>splice\<close> remove the first ellipsis child of the owner; the new nodes get their
  screenshots, are copied through JSON and collapsed, and are pushed; a new ellipsis
  node takes what remains. With no owner found the function returns at once.
\<close>

fun removeFirstEllipsis :: "node list \<Rightarrow> node list" where
  "removeFirstEllipsis [] = []"
| "removeFirstEllipsis (c # cs) = (if isEllipsis c then cs else c # removeFirstEllipsis cs)"

definition setChildren :: "node list \<Rightarrow> node \<Rightarrow> node" where
  "setChildren cs' t = (case t of Node nm u p cs s ie hs pp bs \<Rightarrow> Node nm u p cs' s ie hs pp bs)"

definition setScreenshot :: "string option \<Rightarrow> node \<Rightarrow> node" where
  "setScreenshot s' t = (case t of Node nm u p cs s ie hs pp bs \<Rightarrow> Node nm u p cs s' ie hs pp bs)"

definition performExpand ::
  "node \<Rightarrow> node \<Rightarrow> node list \<Rightarrow> node list \<Rightarrow> (string \<rightharpoonup> string option) \<Rightarrow> node" where
  "performExpand currentTreeData ellipsisData newNodes remainingNodes screenshotMap =
     (case parentPath ellipsisData of
        None \<Rightarrow> currentTreeData
      | Some pPath \<Rightarrow>
          (case findNodeByPath currentTreeData pPath of
             None \<Rightarrow> currentTreeData
           | Some parentNode \<Rightarrow>
               updateAt
                 (\<lambda>parent.
                    setChildren
                      (removeFirstEllipsis (children parent)
                       @ map (collapseTree 5) (attachScreenshotsToNodes screenshotMap newNodes)
                       @ (if remainingNodes \<noteq> [] then [ellipsisNode pPath remainingNodes] else []))
                      parent)
                 currentTreeData parentNode))"

text \<open>
  \<^verbatim>\<open>ellipsisData.expandBatchSize || 5\<close>, and \<^verbatim>\<open>collectUrlsForCapture\<close>: levels 0 to
  \<^verbatim>\<open>maxDepth = 2\<close> of the nodes to expand, stopping at \<^verbatim>\<open>maxCount\<close> urls. The first
  argument of \<open>collectLevels\<close> after the count is the number of levels still allowed.
\<close>

definition batchSizeOf :: "node \<Rightarrow> nat" where
  "batchSizeOf ellipsisData =
     (if expandBatchSize ellipsisData = 0 then 5 else expandBatchSize ellipsisData)"

fun collectLevels :: "nat \<Rightarrow> nat \<Rightarrow> node list \<Rightarrow> string list \<Rightarrow> string list" where
  "collectLevels maxCount 0 nodeList urls = urls"
| "collectLevels maxCount (Suc k) nodeList urls =
     (if length urls \<ge> maxCount then urls
      else
        foldl (\<lambda>urls nd.
                 if length urls \<ge> maxCount then urls
                 else
                   let urls1 = (if truthy (url nd) \<and> \<not> isEllipsis nd
                                then urls @ [the (url nd)] else urls)
                   in if children nd \<noteq> [] then collectLevels maxCount k (children nd) urls1
                      else urls1)
          urls nodeList)"

definition collectUrlsForCapture :: "node list \<Rightarrow> nat \<Rightarrow> string list" where
  "collectUrlsForCapture ns maxCount = collectLevels maxCount 3 ns []"

text \<open>
  The persisted dataset, the messages between report page and service worker, and the
  page's globals. An absent \<^verbatim>\<open>capturedUrlSet\<close> or \<^verbatim>\<open>screenshotMap\<close> is read as empty
  by the code (\<^verbatim>\<open>|| []\<close>, \<^verbatim>\<open>?.\<close>) and is modelled as empty. \<open>sent\<close> lists the
  \<^verbatim>\<open>chrome.runtime.sendMessage\<close> calls of the page, \<open>alerts\<close> its \<^verbatim>\<open>alert\<close> calls.
\<close>

record captureOptions =
  loadTimeout :: nat
  captureDelay :: nat

record reportData =
  tree :: node
  reportBaseUrl :: string
  totalUrls :: nat
  capturedUrls :: nat
  timestamp :: string
  capturedUrlSet :: "string list"
  screenshotMap :: "string \<rightharpoonup> string"
  options :: "captureOptions option"

datatype message =
    CaptureMore "string list" "string option" captureOptions
  | CaptureMoreError string "string option"
  | CaptureMoreProgress nat nat string "string option"
  | CaptureMoreComplete "captureResult list" "string option"

datatype pending =
    PendingSingle "nat list" string
  | PendingExpand node "node list" "node list" "string option"

record page =
  currentReportData :: reportData
  currentTreeData :: node
  isExpanding :: bool
  pendingExpand :: "pending option"
  loadingShown :: bool
  sent :: "message list"
  alerts :: "string list"

definition optionsOrDefault :: "reportData \<Rightarrow> captureOptions" where
  "optionsOrDefault rd =
     (case options rd of Some opts \<Rightarrow> opts
      | None \<Rightarrow> \<lparr> loadTimeout = 5000, captureDelay = 1000 \<rparr>)"

definition handleExpandClick :: "page \<Rightarrow> nat list \<Rightarrow> page" where
  "handleExpandClick pg ellipsisD3Node =
     (if isExpanding pg then pg
      else case nodeAt (currentTreeData pg) ellipsisD3Node of
        None \<Rightarrow> pg
      | Some ellipsisData \<Rightarrow>
          if hiddenChildren ellipsisData = [] then pg
          else
            let batchSize = batchSizeOf ellipsisData;
                nodesToExpand = take batchSize (hiddenChildren ellipsisData);
                remainingNodes = drop batchSize (hiddenChildren ellipsisData);
                urlsToCapture = collectUrlsForCapture nodesToExpand 10;
                newUrls = filter (\<lambda>u. u \<notin> set (capturedUrlSet (currentReportData pg)))
                                 urlsToCapture
            in if newUrls = [] then
                 pg\<lparr> currentTreeData :=
                        performExpand (currentTreeData pg) ellipsisData nodesToExpand
                          remainingNodes Map.empty,
                      isExpanding := False \<rparr>
               else
                 pg\<lparr> isExpanding := True,
                      loadingShown := True,
                      pendingExpand :=
                        Some (PendingExpand ellipsisData nodesToExpand remainingNodes
                                (parentPath ellipsisData)),
                      sent := sent pg @ [CaptureMore newUrls (parentPath ellipsisData)
                                           (optionsOrDefault (currentReportData pg))] \<rparr>)"

definition handleSingleNodeCapture :: "page \<Rightarrow> nat list \<Rightarrow> page" where
  "handleSingleNodeCapture pg d3Node =
     (if isExpanding pg then pg
      else case nodeAt (currentTreeData pg) d3Node of
        None \<Rightarrow> pg
      | Some nodeData \<Rightarrow>
          if \<not> truthy (url nodeData) \<or> truthy (screenshot nodeData) then pg
          else
            let u = the (url nodeData);
                stored = (if u \<in> set (capturedUrlSet (currentReportData pg))
                          then screenshotMap (currentReportData pg) u else None)
            in if truthy stored then
                 pg\<lparr> currentTreeData :=
                        updateAt (setScreenshot stored) (currentTreeData pg) d3Node \<rparr>
               else
                 pg\<lparr> isExpanding := True,
                      loadingShown := True,
                      pendingExpand := Some (PendingSingle d3Node (path nodeData)),
                      sent := sent pg @ [CaptureMore [u] (Some (path nodeData))
                                           (optionsOrDefault (currentReportData pg))] \<rparr>)"

text \<open>
  The service worker's globals \<^verbatim>\<open>isRunning\<close> and \<^verbatim>\<open>shouldCancel\<close>, the stored
  \<^verbatim>\<open>reportData\<close>, and the messages it sends with \<^verbatim>\<open>sendToTab\<close> (tab id and message).
  \<^verbatim>\<open>captureMoreScreenshots\<close> awaits the capture loop; the loop's reads of
  \<^verbatim>\<open>shouldCancel\<close> are the oracle of the renderer.
\<close>

record worker =
  isRunning :: bool
  shouldCancel :: bool
  storage :: "reportData option"
  outbox :: "(nat option \<times> message) list"

definition storeScreenshot :: "reportData \<Rightarrow> captureResult \<Rightarrow> reportData" where
  "storeScreenshot rd r =
     (case r_screenshot r of
        None \<Rightarrow> rd
      | Some img \<Rightarrow>
          if img = [] then rd
          else rd\<lparr> screenshotMap := (screenshotMap rd)(r_url r \<mapsto> img),
                    capturedUrlSet :=
                      (if r_url r \<in> set (capturedUrlSet rd) then capturedUrlSet rd
                       else capturedUrlSet rd @ [r_url r]) \<rparr>)"

definition updateStorage :: "reportData \<Rightarrow> captureResult list \<Rightarrow> reportData" where
  "updateStorage rd screenshots =
     (let rd1 = foldl storeScreenshot rd screenshots;
          allScreenshots = (\<lambda>u. map_option Some (screenshotMap rd1 u))
      in rd1\<lparr> tree := attachScreenshotsToTree allScreenshots (tree rd1),
               capturedUrls := length (capturedUrlSet rd1) \<rparr>)"

definition captureMoreScreenshots ::
  "renderer \<Rightarrow> worker \<Rightarrow> string list \<Rightarrow> string option \<Rightarrow> captureOptions \<Rightarrow> nat option \<Rightarrow> worker" where
  "captureMoreScreenshots env w urls pPath opts sourceTabId =
     (if isRunning w then
        w\<lparr> outbox := outbox w @
               [(sourceTabId, CaptureMoreError ''Another capture is in progress'' pPath)] \<rparr>
      else
        let w1 = w\<lparr> isRunning := True, shouldCancel := False \<rparr> in
        case captureScreenshotsDebugger env True urls of
          Inl msg \<Rightarrow>
            w1\<lparr> outbox := outbox w1 @ [(sourceTabId, CaptureMoreError msg pPath)],
                 isRunning := False \<rparr>
        | Inr (screenshots, log) \<Rightarrow>
            w1\<lparr> outbox := outbox w1
                   @ map (\<lambda>(c, t, u). (sourceTabId, CaptureMoreProgress c t u pPath))
                         (progressOf log)
                   @ [(sourceTabId,
                       CaptureMoreComplete
                         (filter (\<lambda>r. truthy (r_screenshot r)) screenshots) pPath)],
                 storage := map_option (\<lambda>rd. updateStorage rd screenshots) (storage w1),
                 isRunning := False \<rparr>)"

definition noteCaptured :: "reportData \<Rightarrow> captureResult \<Rightarrow> reportData" where
  "noteCaptured rd r =
     (let rd1 = (if r_url r \<in> set (capturedUrlSet rd) then rd
                 else rd\<lparr> capturedUrlSet := capturedUrlSet rd @ [r_url r] \<rparr>)
      in if truthy (r_screenshot r)
         then rd1\<lparr> screenshotMap := (screenshotMap rd1)(r_url r \<mapsto> the (r_screenshot r)) \<rparr>
         else rd1)"

definition screenshotMapOf :: "captureResult list \<Rightarrow> (string \<rightharpoonup> string option)" where
  "screenshotMapOf screenshots =
     foldl (\<lambda>m r. m(r_url r \<mapsto> r_screenshot r)) Map.empty screenshots"

definition handleSingleNodeComplete :: "page \<Rightarrow> (string \<rightharpoonup> string option) \<Rightarrow> page" where
  "handleSingleNodeComplete pg shots =
     (case pendingExpand pg of
        Some (PendingSingle d3Node nodePath) \<Rightarrow>
          (case findNodeByPath (currentTreeData pg) nodePath of
             None \<Rightarrow> pg
           | Some nodeInTree \<Rightarrow>
               (case nodeAt (currentTreeData pg) nodeInTree of
                  None \<Rightarrow> pg
                | Some nd \<Rightarrow>
                    if truthy (url nd) then
                      (case shots (the (url nd)) of
                         Some img \<Rightarrow>
                           if truthy img
                           then pg\<lparr> currentTreeData :=
                                      updateAt (setScreenshot img) (currentTreeData pg) nodeInTree \<rparr>
                           else pg
                       | None \<Rightarrow> pg)
                    else pg))
      | _ \<Rightarrow> pg)"

definition handleExpandComplete :: "page \<Rightarrow> captureResult list \<Rightarrow> string option \<Rightarrow> page" where
  "handleExpandComplete pg screenshots pPath =
     (let pg0 = pg\<lparr> loadingShown := False \<rparr> in
      case pendingExpand pg0 of
        None \<Rightarrow> pg0\<lparr> isExpanding := False \<rparr>
      | Some pend \<Rightarrow>
          let shots = screenshotMapOf screenshots;
              pg1 = pg0\<lparr> currentReportData :=
                           foldl noteCaptured (currentReportData pg0) screenshots \<rparr>
          in (case pend of
                PendingSingle d3Node nodePath \<Rightarrow>
                  (handleSingleNodeComplete pg1 shots)
                    \<lparr> pendingExpand := None, isExpanding := False \<rparr>
              | PendingExpand ellipsisData nodesToExpand remainingNodes pendPath \<Rightarrow>
                  if pendPath \<noteq> pPath
                  then pg1\<lparr> isExpanding := False, pendingExpand := None \<rparr>
                  else pg1\<lparr> currentTreeData :=
                              performExpand (currentTreeData pg1) ellipsisData nodesToExpand
                                remainingNodes shots,
                            pendingExpand := None, isExpanding := False \<rparr>))"

definition handleExpandError :: "page \<Rightarrow> string \<Rightarrow> page" where
  "handleExpandError pg err =
     pg\<lparr> loadingShown := False, pendingExpand := None, isExpanding := False,
          alerts := alerts pg @ [''Failed to capture screenshots: '' @ err] \<rparr>"

section \<open>Collapsing and expanding: the display tree\<close>

text \<open>
  \<open>reveal\<close> is the source-side view of a display node: an ellipsis node stands for its
  hidden children, an ordinary node for itself with all its children revealed, and
  screenshots are left out. \<open>small\<close> says that no node has more than 5 children.
\<close>

fun reveal :: "node \<Rightarrow> node list" where
  "reveal (Node nm u p cs s ie hs pp bs) =
     (if ie then concat (map reveal hs)
      else [Node nm u p (concat (map reveal cs)) None ie hs pp bs])"

fun small :: "node \<Rightarrow> bool" where
  "small (Node nm u p cs s ie hs pp bs) = (length cs \<le> 5 \<and> (\<forall>c \<in> set cs. small c))"

text \<open>
  The shape of a display tree. An ordinary node's children are display trees linked to
  it: a real child by its path (parent path, name, \<^verbatim>\<open>/\<close>), an ellipsis child by its
  \<^verbatim>\<open>parentPath\<close> and path, with hidden nodes that are children of the owner by their
  paths. Only the last child may be an ellipsis node, and the names of the children,
  shown or hidden, are distinct. An ellipsis node has no children, and its hidden
  nodes are real, small display trees, at least one.
\<close>

definition childOf :: "string \<Rightarrow> node \<Rightarrow> bool" where
  "childOf p c = (seg (name c) \<and> path c = p @ name c @ ''/'')"

definition kidNames :: "node list \<Rightarrow> string list" where
  "kidNames cs =
     concat (map (\<lambda>c. if isEllipsis c then map name (hiddenChildren c) else [name c]) cs)"

definition kidLink :: "string \<Rightarrow> node \<Rightarrow> bool" where
  "kidLink p c =
     (if isEllipsis c
      then parentPath c = Some p \<and> path c = p @ ''_more/''
           \<and> (\<forall>h \<in> set (hiddenChildren c). childOf p h)
      else childOf p c)"

fun displayTree :: "node \<Rightarrow> bool" where
  "displayTree (Node nm u p cs s ie hs pp bs) =
     (if ie then cs = [] \<and> hs \<noteq> [] \<and> (\<forall>h \<in> set hs. \<not> isEllipsis h \<and> small h \<and> displayTree h)
      else (\<forall>c \<in> set cs. displayTree c \<and> kidLink p c)
           \<and> (\<forall>c \<in> set (butlast cs). \<not> isEllipsis c)
           \<and> distinct (kidNames cs))"

text \<open>
  The number of nodes still hidden, counted through nested ellipsis nodes: it bounds
  the number of expansions left. \<open>firstEllipsis\<close> is the position of the first ellipsis
  node of the display tree in pre-order.
\<close>

fun hiddenWeight :: "node \<Rightarrow> nat" where
  "hiddenWeight (Node nm u p cs s ie hs pp bs) =
     (if ie then sum_list (map (\<lambda>h. 1 + hiddenWeight h) hs)
      else sum_list (map hiddenWeight cs))"

fun firstEllipsis :: "node \<Rightarrow> nat list option" where
  "firstEllipsis (Node nm u p cs s ie hs pp bs) =
     (if ie then Some [] else firstFound 0 (map firstEllipsis cs))"

text \<open>
  One expansion, as \<^verbatim>\<open>handleExpandClick\<close> and \<^verbatim>\<open>performExpand\<close> do it on the display
  tree: the click is on the node at \<open>pos\<close>, the batch is the first
  \<^verbatim>\<open>expandBatchSize\<close> hidden nodes, and \<open>shots\<close> are the screenshots that the capture
  returned (none when every url was already captured). \<open>expandAll\<close> repeats it while an
  ellipsis node is left: \<open>pick\<close> chooses the node clicked, \<open>shots i\<close> are the
  screenshots of a round, and the first argument bounds the number of rounds.
\<close>

definition expandStep :: "(string \<rightharpoonup> string option) \<Rightarrow> node \<Rightarrow> nat list \<Rightarrow> node" where
  "expandStep shots D pos =
     (case nodeAt D pos of
        None \<Rightarrow> D
      | Some e \<Rightarrow>
          if hiddenChildren e = [] then D
          else performExpand D e (take (batchSizeOf e) (hiddenChildren e))
                 (drop (batchSizeOf e) (hiddenChildren e)) shots)"

fun expandAll ::
  "nat \<Rightarrow> (node \<Rightarrow> nat list) \<Rightarrow> (nat \<Rightarrow> (string \<rightharpoonup> string option)) \<Rightarrow> node \<Rightarrow> node option" where
  "expandAll 0 pick shots D = (if firstEllipsis D = None then Some D else None)"
| "expandAll (Suc n) pick shots D =
     (if firstEllipsis D = None then Some D
      else expandAll n pick shots (expandStep (shots n) D (pick D)))"

text \<open>What \<^verbatim>\<open>performExpand\<close> pushes for one hidden node.\<close>

definition revealed :: "(string \<rightharpoonup> string option) \<Rightarrow> node \<Rightarrow> node" where
  "revealed m h = collapseTree 5 (attachScreenshotsToNode m h)"

definition sameFields :: "node \<Rightarrow> node \<Rightarrow> bool" where
  "sameFields a b =
     (name a = name b \<and> path a = path b \<and> isEllipsis a = isEllipsis b
      \<and> hiddenChildren a = hiddenChildren b \<and> parentPath a = parentPath b)"

definition newUrlsOf :: "page \<Rightarrow> node \<Rightarrow> string list" where
  "newUrlsOf pg e =
     filter (\<lambda>u. u \<notin> set (capturedUrlSet (currentReportData pg)))
       (collectUrlsForCapture (take (batchSizeOf e) (hiddenChildren e)) 10)"

section \<open>Object identity on the report page (report.js, renderTree)\<close>

text \<open>
  \<^verbatim>\<open>collapseTree(node, maxChildren)\<close> assigns to \<^verbatim>\<open>node.children\<close> of the object it is
  given, and \<^verbatim>\<open>renderTree(data)\<close> calls it on
  \<^verbatim>\<open>JSON.parse(JSON.stringify(data))\<close>. Which objects are written is a question of
  object identity, so this section models the node objects in a heap, as the tree
  builder does: the address of an object is its index in the list, a new object is
  appended, and \<^verbatim>\<open>children\<close> and \<^verbatim>\<open>hiddenChildren\<close> hold addresses. A node object
  has the fields of the record \<open>obj\<close> and the four ellipsis fields (absent fields as
  in the datatype \<open>node\<close>).
\<close>

record nodeObj = obj +
  o_isEllipsis :: bool
  o_hiddenChildren :: "nat list"
  o_parentPath :: "string option"
  o_expandBatchSize :: nat

text \<open>
  \<^verbatim>\<open>JSON.stringify(node)\<close>: the tree value reachable from the object at address \<open>a\<close>.
  The serializer recurses through \<^verbatim>\<open>children\<close> and \<^verbatim>\<open>hiddenChildren\<close>; \<open>n\<close> bounds the
  nesting depth, and the result is \<open>None\<close> when the object graph is nested deeper
  than \<open>n\<close> (on a cyclic graph, at every \<open>n\<close>: \<^verbatim>\<open>JSON.stringify\<close> throws), and
  when an address is not in the heap (a reference to no object, which JavaScript
  does not have).
\<close>

fun readAt :: "nat \<Rightarrow> nodeObj list \<Rightarrow> nat \<Rightarrow> node option" where
  "readAt 0 h a = None"
| "readAt (Suc n) h a =
     (if a < length h then
        (let cs = map (readAt n h) (o_children (h ! a));
             hs = map (readAt n h) (o_hiddenChildren (h ! a))
         in if None \<in> set cs \<or> None \<in> set hs then None
            else Some (Node (o_name (h ! a)) (o_url (h ! a)) (o_path (h ! a)) (map the cs)
                         (o_screenshot (h ! a)) (o_isEllipsis (h ! a)) (map the hs)
                         (o_parentPath (h ! a)) (o_expandBatchSize (h ! a))))
      else None)"

text \<open>
  \<^verbatim>\<open>JSON.parse\<close> of a serialized tree: one new object for every node of the value,
  appended to the heap; the result is the address of the new root object and the
  extended heap.
\<close>

fun allocTree :: "node \<Rightarrow> nodeObj list \<Rightarrow> nat \<times> nodeObj list"
  and allocList :: "node list \<Rightarrow> nodeObj list \<Rightarrow> nat list \<times> nodeObj list" where
  "allocTree (Node nm u p cs s ie hs pp bs) h =
     (let (cas, h1) = allocList cs h;
          (has, h2) = allocList hs h1
      in (length h2,
          h2 @ [\<lparr> o_name = nm, o_url = u, o_path = p, o_children = cas, o_screenshot = s,
                  o_isEllipsis = ie, o_hiddenChildren = has, o_parentPath = pp,
                  o_expandBatchSize = bs \<rparr>]))"
| "allocList [] h = ([], h)"
| "allocList (c # cs) h =
     (let (a, h1) = allocTree c h;
          (as, h2) = allocList cs h1
      in (a # as, h2))"

text \<open>The ellipsis object literal of \<^verbatim>\<open>collapseTree\<close>, holding addresses.\<close>

definition ellipsisObj :: "string \<Rightarrow> nat list \<Rightarrow> nodeObj" where
  "ellipsisObj p hidden =
     \<lparr> o_name = ''... +'' @ string_of_nat (length hidden) @ '' more'', o_url = None,
       o_path = p @ ''_more/'', o_children = [], o_screenshot = None,
       o_isEllipsis = True, o_hiddenChildren = hidden, o_parentPath = Some p,
       o_expandBatchSize = 5 \<rparr>"

text \<open>
  \<^verbatim>\<open>collapseTree(node, maxChildren)\<close> on the heap. The call returns the reference it
  was given, so the result is the heap after the call. \<^verbatim>\<open>node.children.map(...)\<close>
  walks the array read before the recursion (\<open>cs\<close>) and gives a new array of the
  same references, which is assigned to \<^verbatim>\<open>node.children\<close>; over the limit the
  assignment is of the first \<^verbatim>\<open>maxChildren - 1\<close> references and a new ellipsis object.
  \<open>n\<close> bounds the recursion depth: \<open>None\<close> when the graph is nested deeper, and
  when an address is not in the heap.
\<close>

fun collapseAt :: "nat \<Rightarrow> int \<Rightarrow> nodeObj list \<Rightarrow> nat \<Rightarrow> nodeObj list option"
  and collapseEach :: "nat \<Rightarrow> int \<Rightarrow> nodeObj list \<Rightarrow> nat list \<Rightarrow> nodeObj list option" where
  "collapseAt 0 maxChildren h a = None"
| "collapseAt (Suc n) maxChildren h a =
     (if a < length h then
        (let cs = o_children (h ! a) in
         if cs = [] then Some h
         else
           (case collapseEach n maxChildren h cs of
              None \<Rightarrow> None
            | Some h1 \<Rightarrow>
                if int (length cs) > maxChildren then
                  let visibleCount = maxChildren - 1;
                      visibleChildren = slice cs 0 visibleCount;
                      hidden = slice_from cs visibleCount;
                      e = length h1
                  in Some ((h1 @ [ellipsisObj (o_path (h1 ! a)) hidden])
                             [a := (h1 ! a)\<lparr> o_children := visibleChildren @ [e] \<rparr>])
                else Some (h1[a := (h1 ! a)\<lparr> o_children := cs \<rparr>])))
      else None)"
| "collapseEach n maxChildren h [] = Some h"
| "collapseEach n maxChildren h (c # cs) =
     (case collapseAt n maxChildren h c of
        None \<Rightarrow> None
      | Some h1 \<Rightarrow> collapseEach n maxChildren h1 cs)"

text \<open>
  \<^verbatim>\<open>renderTree(data)\<close>, the statement
  \<^verbatim>\<open>currentTreeData = collapseTree(JSON.parse(JSON.stringify(data)), 5)\<close>: the heap
  after it and the address stored in \<^verbatim>\<open>currentTreeData\<close>. (The rest of the function
  draws the tree and writes no node object.)
\<close>

definition renderTree :: "nat \<Rightarrow> nodeObj list \<Rightarrow> nat \<Rightarrow> (nodeObj list \<times> nat) option" where
  "renderTree n h dat =
     (case readAt n h dat of
        None \<Rightarrow> None
      | Some t \<Rightarrow>
          let (a, h1) = allocTree t h
          in map_option (\<lambda>h2. (h2, a)) (collapseAt n 5 h1 a))"

text \<open>The nesting depth of a tree through \<^verbatim>\<open>children\<close>.\<close>

fun levels :: "node \<Rightarrow> nat" where
  "levels (Node nm u p cs s ie hs pp bs) = Suc (foldr max (map levels cs) 0)"

text \<open>
  \<open>own h a t F\<close>: in heap \<open>h\<close> the object at address \<open>a\<close> is the root of a tree of
  objects with value \<open>t\<close>, made of the objects at the addresses \<open>F\<close>, no object
  occurring twice in it.
\<close>

inductive own :: "nodeObj list \<Rightarrow> nat \<Rightarrow> node \<Rightarrow> nat set \<Rightarrow> bool"
  and owns :: "nodeObj list \<Rightarrow> nat list \<Rightarrow> node list \<Rightarrow> nat set \<Rightarrow> bool"
  for h :: "nodeObj list" where
  own_Node:
    "a < length h \<Longrightarrow>
     h ! a = \<lparr> o_name = nm, o_url = u, o_path = p, o_children = as, o_screenshot = s,
               o_isEllipsis = ie, o_hiddenChildren = bs, o_parentPath = pp,
               o_expandBatchSize = k \<rparr> \<Longrightarrow>
     owns h as cs F \<Longrightarrow> owns h bs hs G \<Longrightarrow> a \<notin> F \<Longrightarrow> a \<notin> G \<Longrightarrow> F \<inter> G = {} \<Longrightarrow>
     own h a (Node nm u p cs s ie hs pp k) (insert a (F \<union> G))"
| owns_Nil: "owns h [] [] {}"
| owns_Cons:
    "own h a c F \<Longrightarrow> owns h as cs G \<Longrightarrow> F \<inter> G = {} \<Longrightarrow>
     owns h (a # as) (c # cs) (F \<union> G)"

text \<open>Heap \<open>h'\<close> has the objects of \<open>h\<close> at the addresses \<open>F\<close>.\<close>

definition agreeOn :: "nat set \<Rightarrow> nodeObj list \<Rightarrow> nodeObj list \<Rightarrow> bool" where
  "agreeOn F h h' = (\<forall>b\<in>F. b < length h' \<and> h' ! b = h ! b)"

text \<open>
  Heap \<open>h'\<close> comes from \<open>h0\<close> by writing only objects at the addresses \<open>F\<close> and
  appending objects, and \<open>F'\<close> holds only addresses of \<open>F\<close> and of appended objects.
\<close>

definition after :: "nodeObj list \<Rightarrow> nat set \<Rightarrow> nodeObj list \<Rightarrow> nat set \<Rightarrow> bool" where
  "after h0 F h' F' =
     (length h0 \<le> length h' \<and> (\<forall>b<length h0. b \<notin> F \<longrightarrow> h' ! b = h0 ! b) \<and>
      F' \<subseteq> F \<union> {length h0..<length h'})"

section \<open>Sample trees\<close>

definition page :: "string \<Rightarrow> string \<Rightarrow> node" where
  "page nm p = Node nm (Some (''https://example.com'' @ p)) p [] None False [] None 0"

definition site :: "node list \<Rightarrow> node" where
  "site cs = Node ''example.com'' (Some ''https://example.com'') ''/'' cs None False [] None 0"

definition sixPages :: "node list" where
  "sixPages = [page ''a'' ''/a/'', page ''b'' ''/b/'', page ''c'' ''/c/'',
               page ''d'' ''/d/'', page ''e'' ''/e/'', page ''f'' ''/f/'']"

definition flaky :: renderer where
  "flaky = \<lparr> setupError = None, shouldCancelAt = (\<lambda>i. False),
             pageRender = (\<lambda>i u. if i = 1 then Inl ''net::ERR_TIMED_OUT'' else Inr ''iVBOR'') \<rparr>"

definition demoPathname :: "string \<Rightarrow> string option" where
  "demoPathname u =
     (if take 19 u = ''https://example.com'' then Some (if drop 19 u = [] then ''/'' else drop 19 u)
      else None)"

definition demoUrls :: "string list" where
  "demoUrls = map (\<lambda>p. ''https://example.com'' @ p)
     [''/a/x/'', ''/'', ''/a/'', ''/a/y/'', ''/b/'', ''/b/z/'']"

definition demoHostname :: "string \<Rightarrow> string option" where
  "demoHostname u = (if take 19 u = ''https://example.com'' then Some ''example.com'' else None)"

definition moreUrls :: "string list" where
  "moreUrls = map (\<lambda>p. ''https://example.com'' @ p)
     [''/_more'', ''/b'', ''/c'', ''/d'', ''/e'', ''/f'']"

definition busyPage :: page where
  "busyPage =
     \<lparr> currentReportData =
         \<lparr> tree = site sixPages, reportBaseUrl = ''https://example.com'', totalUrls = 6,
           capturedUrls = 0, timestamp = ''2026-01-22T00:00:00.000Z'', capturedUrlSet = [],
           screenshotMap = Map.empty, options = None \<rparr>,
       currentTreeData = collapseTree 5 (site sixPages),
       isExpanding = True,
       pendingExpand = Some (PendingSingle [0] ''/a/''),
       loadingShown = True,
       sent = [CaptureMore [''https://example.com/a/''] (Some ''/a/'')
                 \<lparr> loadTimeout = 5000, captureDelay = 1000 \<rparr>],
       alerts = [] \<rparr>"

definition busyWorker :: worker where
  "busyWorker = \<lparr> isRunning = True, shouldCancel = False, storage = None, outbox = [] \<rparr>"

definition twelvePages :: "node list" where
  "twelvePages = sixPages @
     [page ''g'' ''/g/'', page ''h'' ''/h/'', page ''i'' ''/i/'',
      page ''j'' ''/j/'', page ''k'' ''/k/'', page ''l'' ''/l/'']"

definition clickFirst :: "node \<Rightarrow> nat list" where
  "clickFirst D = (case firstEllipsis D of Some pos \<Rightarrow> pos | None \<Rightarrow> [])"

text \<open>
  A heap holding the six-page site and nothing else: the six pages at the addresses
  0 to 5 and the root at address 6.
\<close>

definition sixHeap :: "nodeObj list" where
  "sixHeap = snd (allocTree (site sixPages) [])"



section \<open>Properties of the Tree Collapser\<close>

lemma slice_0_4: "slice xs 0 4 = take 4 xs"
  by (simp add: slice_def js_index_def min_def)

lemma slice_from_4: "slice_from xs 4 = drop 4 xs"
  by (simp add: slice_from_def js_index_def min_def)

lemma collapseTree_5:
  "collapseTree 5 (Node nm u p cs s ie hs pp bs) =
     (if 5 < length cs
      then Node nm u p (map (collapseTree 5) (take 4 cs) @
                        [ellipsisNode p (map (collapseTree 5) (drop 4 cs))]) s ie hs pp bs
      else Node nm u p (map (collapseTree 5) cs) s ie hs pp bs)"
  by (simp add: Let_def slice_0_4 slice_from_4 take_map drop_map)

lemma collapseTree_isEllipsis: "isEllipsis (collapseTree 5 t) = isEllipsis t"
  by (cases t) (simp add: collapseTree_5 del: collapseTree.simps)

lemma collapseTree_page: "collapseTree 5 (page nm p) = page nm p"
  by (simp add: page_def)

text \<open>
  Claim C2. With \<^verbatim>\<open>maxChildren = 5\<close>, a node that had \<open>k > 5\<close> children has, after
  collapsing, its first 4 children (each collapsed) followed by exactly one ellipsis
  node whose \<^verbatim>\<open>hiddenChildren\<close> are the other \<open>k - 4\<close> children (each collapsed);
  a node with \<open>k \<le> 5\<close> children keeps all of them, each collapsed, and no ellipsis
  node is added. The children are the result of the same function, so the statement
  holds at every node of the tree.
\<close>

theorem collapseTree_fanout:
  "(5 < length (children t) \<longrightarrow>
      (\<exists>e. children (collapseTree 5 t) = map (collapseTree 5) (take 4 (children t)) @ [e]
         \<and> isEllipsis e
         \<and> hiddenChildren e = map (collapseTree 5) (drop 4 (children t))
         \<and> length (hiddenChildren e) = length (children t) - 4
         \<and> map isEllipsis (children (collapseTree 5 t)) =
             map isEllipsis (take 4 (children t)) @ [True]))
   \<and> (length (children t) \<le> 5 \<longrightarrow>
        children (collapseTree 5 t) = map (collapseTree 5) (children t)
      \<and> map isEllipsis (children (collapseTree 5 t)) = map isEllipsis (children t))"
  by (cases t)
     (simp add: collapseTree_5 ellipsisNode_def collapseTree_isEllipsis comp_def
           del: collapseTree.simps)

theorem collapseTree_fanout_witness:
  "5 < length (children (site sixPages))
   \<and> (\<exists>e. children (collapseTree 5 (site sixPages)) =
           [page ''a'' ''/a/'', page ''b'' ''/b/'', page ''c'' ''/c/'', page ''d'' ''/d/'', e]
         \<and> isEllipsis e
         \<and> hiddenChildren e = [page ''e'' ''/e/'', page ''f'' ''/f/''])
   \<and> length (children (site (take 3 sixPages))) \<le> 5
   \<and> children (collapseTree 5 (site (take 3 sixPages))) =
       [page ''a'' ''/a/'', page ''b'' ''/b/'', page ''c'' ''/c/'']"
proof -
  have six: "5 < length (children (site sixPages))"
    by (simp add: site_def sixPages_def)
  have three: "length (children (site (take 3 sixPages))) \<le> 5"
    by (simp add: site_def sixPages_def)
  from collapseTree_fanout [of "site sixPages"] six
  obtain e where e: "children (collapseTree 5 (site sixPages)) =
        map (collapseTree 5) (take 4 (children (site sixPages))) @ [e]"
      "isEllipsis e"
      "hiddenChildren e = map (collapseTree 5) (drop 4 (children (site sixPages)))"
    by blast
  have "children (collapseTree 5 (site sixPages)) =
          [page ''a'' ''/a/'', page ''b'' ''/b/'', page ''c'' ''/c/'', page ''d'' ''/d/'', e]
        \<and> isEllipsis e \<and> hiddenChildren e = [page ''e'' ''/e/'', page ''f'' ''/f/'']"
    unfolding e by (simp add: e(2) site_def sixPages_def collapseTree_page)
  moreover from collapseTree_fanout [of "site (take 3 sixPages)"] three
  have "children (collapseTree 5 (site (take 3 sixPages))) =
          map (collapseTree 5) (children (site (take 3 sixPages)))"
    by blast
  then have "children (collapseTree 5 (site (take 3 sixPages))) =
       [page ''a'' ''/a/'', page ''b'' ''/b/'', page ''c'' ''/c/'']"
    by (simp add: site_def sixPages_def collapseTree_page)
  ultimately show ?thesis using six three by blast
qed

lemma collapseTree_twice: "collapseTree 5 (collapseTree 5 t) = collapseTree 5 t"
proof (induction t)
  case (Node nm u p cs s ie hs pp bs)
  have IH: "map (collapseTree 5) (map (collapseTree 5) xs) = map (collapseTree 5) xs"
    if "set xs \<subseteq> set cs" for xs
    using that Node.IH(1) by (induction xs) auto
  show ?case
  proof (cases "5 < length cs")
    case True
    have e: "collapseTree 5 (ellipsisNode p hd) = ellipsisNode p hd" for hd
      by (simp add: ellipsisNode_def)
    have t4: "set (take 4 cs) \<subseteq> set cs" by (rule set_take_subset)
    show ?thesis using True IH[OF t4]
      by (simp add: collapseTree_5 e del: collapseTree.simps)
  next
    case False
    then show ?thesis using IH[of cs]
      by (simp add: collapseTree_5 del: collapseTree.simps)
  qed
qed

text \<open>
  Claim C9. Collapsing is idempotent at \<^verbatim>\<open>maxChildren = 5\<close>: collapsing a collapsed
  tree gives the same tree, for every tree.
\<close>

theorem collapseTree_idempotent: "collapseTree 5 (collapseTree 5 t) = collapseTree 5 t"
  by (rule collapseTree_twice)

theorem collapseTree_idempotent_witness:
  "collapseTree 5 (collapseTree 5 (site sixPages)) = collapseTree 5 (site sixPages)
   \<and> length (children (collapseTree 5 (site sixPages))) = 5"
  using collapseTree_idempotent [of "site sixPages"]
  by (simp add: site_def sixPages_def collapseTree_5 del: collapseTree.simps)

section \<open>Properties of attaching screenshots\<close>

lemma attachTree_erase: "eraseScreenshots (attachScreenshotsToTree m t) = eraseScreenshots t"
  by (induction t) simp

lemma attachNode_erase: "eraseScreenshots (attachScreenshotsToNode m t) = eraseScreenshots t"
  by (induction t) simp

lemma attachTree_shots:
  "map screenshot (nodes (attachScreenshotsToTree m t)) = map (treeShot m) (nodes t)"
proof (induction t)
  case (Node nm u p cs s ie hs pp bs)
  have "map (\<lambda>c. map screenshot (nodes (attachScreenshotsToTree m c))) cs =
        map (\<lambda>c. map (treeShot m) (nodes c)) cs"
    using Node.IH(1) by simp
  then have "concat (map (\<lambda>c. map screenshot (nodes (attachScreenshotsToTree m c))) cs) =
        concat (map (\<lambda>c. map (treeShot m) (nodes c)) cs)"
    by (rule arg_cong)
  then have tl: "map screenshot (concat (map (\<lambda>c. nodes (attachScreenshotsToTree m c)) cs)) =
        map (treeShot m) (concat (map nodes cs))"
    by (simp only: map_concat map_map comp_def)
  have hd: "screenshot (attachScreenshotsToTree m (Node nm u p cs s ie hs pp bs)) =
        treeShot m (Node nm u p cs s ie hs pp bs)"
    by (auto simp: treeShot_def split: option.splits)
  show ?case using hd tl by (simp add: comp_def)
qed

lemma attachNode_shots:
  "map screenshot (nodes (attachScreenshotsToNode m t)) = map (nodesShot m) (nodes t)"
proof (induction t)
  case (Node nm u p cs s ie hs pp bs)
  have "map (\<lambda>c. map screenshot (nodes (attachScreenshotsToNode m c))) cs =
        map (\<lambda>c. map (nodesShot m) (nodes c)) cs"
    using Node.IH(1) by simp
  then have "concat (map (\<lambda>c. map screenshot (nodes (attachScreenshotsToNode m c))) cs) =
        concat (map (\<lambda>c. map (nodesShot m) (nodes c)) cs)"
    by (rule arg_cong)
  then have tl: "map screenshot (concat (map (\<lambda>c. nodes (attachScreenshotsToNode m c)) cs)) =
        map (nodesShot m) (concat (map nodes cs))"
    by (simp only: map_concat map_map comp_def)
  have hd: "screenshot (attachScreenshotsToNode m (Node nm u p cs s ie hs pp bs)) =
        nodesShot m (Node nm u p cs s ie hs pp bs)"
    by (auto simp: nodesShot_def split: option.splits)
  show ?case using hd tl by (simp add: comp_def)
qed

text \<open>
  Claim C10. Attaching screenshots changes screenshot fields only. For both
  \<^verbatim>\<open>attachScreenshotsToTree\<close> and \<^verbatim>\<open>attachScreenshotsToNodes\<close>: with the screenshots
  erased the tree is the same as before (names, urls, paths and the whole child
  structure are unchanged), and, node by node in pre-order, the screenshot afterwards
  is the map's value when the node's url is a key of the map and the old screenshot
  when it is not, so a screenshot attached earlier is never cleared by a map that
  does not mention the node's url.
\<close>

theorem attachScreenshots_frame:
  "eraseScreenshots (attachScreenshotsToTree m t) = eraseScreenshots t
   \<and> map screenshot (nodes (attachScreenshotsToTree m t)) = map (treeShot m) (nodes t)
   \<and> map eraseScreenshots (attachScreenshotsToNodes m ts) = map eraseScreenshots ts
   \<and> map (\<lambda>n. map screenshot (nodes n)) (attachScreenshotsToNodes m ts) =
       map (\<lambda>n. map (nodesShot m) (nodes n)) ts"
  by (simp add: attachTree_erase attachTree_shots attachNode_erase attachNode_shots
                attachScreenshotsToNodes_def comp_def)

theorem attachScreenshots_frame_witness:
  "map screenshot (nodes (attachScreenshotsToTree [''https://example.com/b/'' \<mapsto> Some ''png'']
       (site (take 3 sixPages)))) = [None, None, Some ''png'', None]
   \<and> map (\<lambda>n. map screenshot (nodes n))
        (attachScreenshotsToNodes [''https://example.com/b/'' \<mapsto> Some ''png''] (take 3 sixPages))
       = [[None], [Some ''png''], [None]]"
  using attachScreenshots_frame [of "[''https://example.com/b/'' \<mapsto> Some ''png'']"
      "site (take 3 sixPages)" "take 3 sixPages"]
  by (simp add: site_def sixPages_def page_def treeShot_def nodesShot_def)

section \<open>Properties of the Capture Orchestrator\<close>



lemma progressOf_append: "progressOf (xs @ ys) = progressOf xs @ progressOf ys"
  by (induction xs rule: progressOf.induct) simp_all




text \<open>
  Claim C8 (fails on the code). The ellipsis node gets the path of its owner followed
  by \<^verbatim>\<open>_more/\<close>. A real child whose segment is \<^verbatim>\<open>_more\<close> has that very path: for
  the site with pages \<^verbatim>\<open>/_more/\<close>, \<^verbatim>\<open>/b/\<close>, ..., \<^verbatim>\<open>/f/\<close> the collapsed root has the
  real child and the ellipsis node both at path \<^verbatim>\<open>/_more/\<close>.
\<close>

theorem ellipsis_path_collision:
  "path (hd (children (collapseTree 5 (site (page ''_more'' ''/_more/'' # tl sixPages))))) = ''/_more/''
   \<and> \<not> isEllipsis (hd (children (collapseTree 5 (site (page ''_more'' ''/_more/'' # tl sixPages)))))
   \<and> path (last (children (collapseTree 5 (site (page ''_more'' ''/_more/'' # tl sixPages))))) = ''/_more/''
   \<and> isEllipsis (last (children (collapseTree 5 (site (page ''_more'' ''/_more/'' # tl sixPages)))))"
  by (simp add: site_def sixPages_def page_def collapseTree_5 ellipsisNode_def del: collapseTree.simps)

section \<open>Properties of the Representative Selector\<close>



lemma extends_snoc: "distinct xs \<Longrightarrow> c \<notin> set xs \<Longrightarrow> extends xs (xs @ [c])"
  by (simp add: extends_def)



























lemma selectRepresentativeUrls_example:
  "selectRepresentativeUrls demoPathname exact_quota demoUrls 4 ''https://example.com'' =
   Inr [''https://example.com/'', ''https://example.com'',
      ''https://example.com/a/'', ''https://example.com/a/x/'']"
  by code_simp

section \<open>Properties of the Tree Builder\<close>

lemma split_slash_no_slash: "s \<in> set (split_slash p) \<Longrightarrow> CHR ''/'' \<notin> set s"
proof (induction p arbitrary: s)
  case Nil
  then show ?case by simp
next
  case (Cons c p)
  show ?case
  proof (cases "c = CHR ''/''")
    case True
    then show ?thesis using Cons by auto
  next
    case False
    obtain w ws where ws: "split_slash p = w # ws" by (cases "split_slash p") (cases p; simp split: if_splits list.splits)+
    then have "s = c # w \<or> s \<in> set ws" using Cons.prems False by simp
    moreover have "CHR ''/'' \<notin> set w" using Cons.IH [of w] ws by simp
    moreover have "s \<in> set ws \<Longrightarrow> CHR ''/'' \<notin> set s" using Cons.IH [of s] ws by simp
    ultimately show ?thesis using False by auto
  qed
qed

lemma pathSegments_seg: "s \<in> set (pathSegments p) \<Longrightarrow> seg s"
  by (auto simp: pathSegments_def seg_def dest: split_slash_no_slash)

lemma pushChild_length: "length (pushChild parent a h) = length h"
  by (simp add: pushChild_def)

lemma pushChild_nth:
  "b < length h \<Longrightarrow>
   o_path (pushChild parent a h ! b) = o_path (h ! b)
   \<and> o_name (pushChild parent a h ! b) = o_name (h ! b)
   \<and> o_children (pushChild parent a h ! b) =
       (if b = parent then o_children (h ! b) @ [a] else o_children (h ! b))"
  by (simp add: pushChild_def nth_list_update)


lemma heapInv_new:
  assumes inv: "heapInv h nodeMap"
    and par: "nodeMap currentPath = Some parent"
    and new: "nodeMap (currentPath @ segment @ ''/'') = None"
    and sg: "seg segment"
  shows "heapInv
           (pushChild parent (length h) h @
              [\<lparr> o_name = segment, o_url = x, o_path = currentPath @ segment @ ''/'',
                 o_children = [], o_screenshot = None \<rparr>])
           (nodeMap(currentPath @ segment @ ''/'' \<mapsto> length h))"
proof -
  define p where "p = currentPath @ segment @ ''/''"
  define node where
    "node = \<lparr> o_name = segment, o_url = x, o_path = p, o_children = [], o_screenshot = None \<rparr>"
  define h' where "h' = pushChild parent (length h) h @ [node]"
  define m' where "m' = nodeMap(p \<mapsto> length h)"
  have i1: "\<And>q a. nodeMap q = Some a \<Longrightarrow> a < length h \<and> o_path (h ! a) = q"
    and i2: "\<And>a. a < length h \<Longrightarrow> nodeMap (o_path (h ! a)) = Some a"
    and i3: "\<And>a. a < length h \<Longrightarrow> distinct (o_children (h ! a))"
    and i4: "\<And>a c. a < length h \<Longrightarrow> c \<in> set (o_children (h ! a)) \<Longrightarrow>
               a < c \<and> c < length h \<and> seg (o_name (h ! c))
               \<and> o_path (h ! c) = o_path (h ! a) @ o_name (h ! c) @ ''/''"
    using inv unfolding heapInv_def by blast+
  have pl: "parent < length h" and pp: "o_path (h ! parent) = currentPath"
    using i1 [OF par] by simp_all
  have len: "length h' = Suc (length h)" by (simp add: h'_def pushChild_length)
  have nth_old: "h' ! b = pushChild parent (length h) h ! b" if "b < length h" for b
    using that by (simp add: h'_def nth_append pushChild_length)
  have old_path: "o_path (h' ! b) = o_path (h ! b)" if "b < length h" for b
    using pushChild_nth [OF that, of parent "length h"] nth_old [OF that] by simp
  have old_name: "o_name (h' ! b) = o_name (h ! b)" if "b < length h" for b
    using pushChild_nth [OF that, of parent "length h"] nth_old [OF that] by simp
  have old_kids: "o_children (h' ! b) =
           (if b = parent then o_children (h ! b) @ [length h] else o_children (h ! b))"
    if "b < length h" for b
    using pushChild_nth [OF that, of parent "length h"] nth_old [OF that] by simp
  have top: "h' ! length h = node"
    by (simp add: h'_def nth_append pushChild_length)
  have c1: "a < length h' \<and> o_path (h' ! a) = q" if "m' q = Some a" for q a
  proof (cases "q = p")
    case True
    then have "a = length h" using that by (simp add: m'_def)
    then show ?thesis using top len True by (simp add: node_def)
  next
    case False
    then have "nodeMap q = Some a" using that by (simp add: m'_def)
    from i1 [OF this] have "a < length h" "o_path (h ! a) = q" by simp_all
    then show ?thesis using old_path [of a] len by simp
  qed
  have c2: "m' (o_path (h' ! a)) = Some a" if "a < length h'" for a
  proof (cases "a = length h")
    case True
    then show ?thesis using top by (simp add: node_def m'_def)
  next
    case False
    then have a: "a < length h" using that len by simp
    then have "nodeMap (o_path (h ! a)) = Some a" by (rule i2)
    moreover from this have "o_path (h ! a) \<noteq> p" using new by (auto simp: p_def)
    ultimately show ?thesis using old_path [OF a] by (simp add: m'_def)
  qed
  have c3: "distinct (o_children (h' ! a))" if "a < length h'" for a
  proof (cases "a = length h")
    case True
    then show ?thesis using top by (simp add: node_def)
  next
    case False
    then have a: "a < length h" using that len by simp
    have "length h \<notin> set (o_children (h ! a))" using i4 [OF a] by auto
    then show ?thesis using old_kids [OF a] i3 [OF a] by (cases "a = parent") simp_all
  qed
  have c4: "a < c \<and> c < length h' \<and> seg (o_name (h' ! c))
            \<and> o_path (h' ! c) = o_path (h' ! a) @ o_name (h' ! c) @ ''/''"
    if "a < length h'" "c \<in> set (o_children (h' ! a))" for a c
  proof (cases "a = length h")
    case True
    then show ?thesis using top that by (simp add: node_def)
  next
    case False
    then have a: "a < length h" using that len by simp
    show ?thesis
    proof (cases "c = length h")
      case True
      have "a = parent"
      proof (rule ccontr)
        assume "a \<noteq> parent"
        then have "c \<in> set (o_children (h ! a))" using that(2) old_kids [OF a] by simp
        then show False using i4 [OF a] True by auto
      qed
      then show ?thesis using True top a old_path [OF a] pp sg len by (simp add: node_def p_def)
    next
      case False
      then have c: "c \<in> set (o_children (h ! a))"
        using that(2) old_kids [OF a] by (auto split: if_splits)
      from i4 [OF a c] have "c < length h" by simp
      then show ?thesis using i4 [OF a c] old_path [OF a] old_path [of c] old_name [of c] len
        by simp
    qed
  qed
  have A: "\<forall>q a. m' q = Some a \<longrightarrow> a < length h' \<and> o_path (h' ! a) = q"
    using c1 by blast
  have B: "\<forall>a < length h'. m' (o_path (h' ! a)) = Some a"
    using c2 by blast
  have C: "\<forall>a < length h'. distinct (o_children (h' ! a))
            \<and> (\<forall>c \<in> set (o_children (h' ! a)).
                  a < c \<and> c < length h' \<and> seg (o_name (h' ! c))
                  \<and> o_path (h' ! c) = o_path (h' ! a) @ o_name (h' ! c) @ ''/'')"
    using c3 c4 by blast
  have "heapInv h' m'" unfolding heapInv_def using A B C by (intro conjI)
  then show ?thesis by (simp add: h'_def m'_def node_def p_def)
qed

lemma heapInv_url:
  assumes inv: "heapInv h nodeMap"
  shows "heapInv (h[a := (h ! a)\<lparr> o_url := x \<rparr>]) nodeMap"
proof -
  define h' where "h' = h[a := (h ! a)\<lparr> o_url := x \<rparr>]"
  have i1: "\<And>q a. nodeMap q = Some a \<Longrightarrow> a < length h \<and> o_path (h ! a) = q"
    and i2: "\<And>a. a < length h \<Longrightarrow> nodeMap (o_path (h ! a)) = Some a"
    and i3: "\<And>a. a < length h \<Longrightarrow> distinct (o_children (h ! a))"
    and i4: "\<And>a c. a < length h \<Longrightarrow> c \<in> set (o_children (h ! a)) \<Longrightarrow>
               a < c \<and> c < length h \<and> seg (o_name (h ! c))
               \<and> o_path (h ! c) = o_path (h ! a) @ o_name (h ! c) @ ''/''"
    using inv unfolding heapInv_def by blast+
  have nth: "h' ! b = (if b = a then (h ! a)\<lparr> o_url := x \<rparr> else h ! b)" if "b < length h" for b
    using that by (simp add: h'_def nth_list_update)
  have sp: "o_path (h' ! b) = o_path (h ! b)" if "b < length h" for b
    using nth [OF that] by simp
  have sn: "o_name (h' ! b) = o_name (h ! b)" if "b < length h" for b
    using nth [OF that] by simp
  have sc: "o_children (h' ! b) = o_children (h ! b)" if "b < length h" for b
    using nth [OF that] by simp
  have len: "length h' = length h" by (simp add: h'_def)
  have A: "\<forall>q a. nodeMap q = Some a \<longrightarrow> a < length h' \<and> o_path (h' ! a) = q"
    using i1 sp len by simp
  have B: "\<forall>a < length h'. nodeMap (o_path (h' ! a)) = Some a"
    using i2 sp len by simp
  have C: "distinct (o_children (h' ! b))
            \<and> (\<forall>c \<in> set (o_children (h' ! b)).
                  b < c \<and> c < length h' \<and> seg (o_name (h' ! c))
                  \<and> o_path (h' ! c) = o_path (h' ! b) @ o_name (h' ! c) @ ''/'')"
    if b: "b < length h'" for b
  proof -
    have b': "b < length h" using b len by simp
    have "b < c \<and> c < length h' \<and> seg (o_name (h' ! c))
                  \<and> o_path (h' ! c) = o_path (h' ! b) @ o_name (h' ! c) @ ''/''"
      if "c \<in> set (o_children (h' ! b))" for c
    proof -
      have c: "c \<in> set (o_children (h ! b))" using that sc [OF b'] by simp
      from i4 [OF b' c] have cl: "c < length h" by simp
      show ?thesis using i4 [OF b' c] sp [OF b'] sp [OF cl] sn [OF cl] len by simp
    qed
    then show ?thesis using i3 [OF b'] sc [OF b'] by simp
  qed
  have "heapInv h' nodeMap" unfolding heapInv_def using A B C by blast
  then show ?thesis by (simp add: h'_def)
qed

lemma segmentLoop_inv:
  assumes "\<forall>s \<in> set segs. seg s" "heapInv h nodeMap" "nodeMap currentPath = Some parent"
    and "segmentLoop u n i segs (h, nodeMap, currentPath, parent) = (h', nodeMap', currentPath', parent')"
  shows "heapInv h' nodeMap' \<and> nodeMap' currentPath' = Some parent' \<and> nodeMap \<subseteq>\<^sub>m nodeMap'"
  using assms
proof (induction segs arbitrary: h nodeMap currentPath parent i)
  case Nil
  then show ?case by simp
next
  case (Cons segment rest)
  define newPath where "newPath = currentPath @ segment @ ''/''"
  have sg: "seg segment" and rest: "\<forall>s \<in> set rest. seg s" using Cons.prems(1) by simp_all
  show ?case
  proof (cases "nodeMap newPath")
    case None
    define node where "node = \<lparr> o_name = segment, o_url = (if i + 1 = n then Some u else None),
                       o_path = newPath, o_children = [], o_screenshot = None \<rparr>"
    define h1 where "h1 = pushChild parent (length h) h @ [node]"
    define m1 where "m1 = nodeMap(newPath \<mapsto> length h)"
    have inv1: "heapInv h1 m1"
      using heapInv_new [OF Cons.prems(2) Cons.prems(3) None [unfolded newPath_def] sg]
      by (simp add: h1_def m1_def node_def newPath_def)
    have cur1: "m1 newPath = Some (length h)" by (simp add: m1_def)
    have step: "segmentLoop u n (i + 1) rest (h1, m1, newPath, length h) =
                (h', nodeMap', currentPath', parent')"
      using Cons.prems(4) None
      by (simp add: Let_def newPath_def [symmetric] h1_def m1_def node_def)
    from Cons.IH [OF rest inv1 cur1 step]
    have "heapInv h' nodeMap'" "nodeMap' currentPath' = Some parent'" "m1 \<subseteq>\<^sub>m nodeMap'"
      by simp_all
    moreover have "nodeMap \<subseteq>\<^sub>m m1" using None by (auto simp: m1_def map_le_def)
    ultimately show ?thesis using map_le_trans by blast
  next
    case (Some a)
    have step: "segmentLoop u n (i + 1) rest (h, nodeMap, newPath, a) =
                (h', nodeMap', currentPath', parent')"
      using Cons.prems(4) Some by (simp add: Let_def newPath_def [symmetric])
    from Cons.IH [OF rest Cons.prems(2) Some step] show ?thesis .
  qed
qed

lemma insertUrl_inv:
  assumes "buildInv st"
  shows "buildInv (insertUrl st (u, p, d))"
proof -
  obtain h nodeMap where st: "st = (h, nodeMap)" by (cases st)
  have inv: "heapInv h nodeMap" and root: "nodeMap ''/'' = Some 0"
    using assms by (simp_all add: buildInv_def st)
  obtain h1 m1 cur par where loop:
    "segmentLoop u (length (pathSegments p)) 0 (pathSegments p) (h, nodeMap, ''/'', 0) =
       (h1, m1, cur, par)"
    by (metis prod_cases4)
  have segs: "\<forall>s \<in> set (pathSegments p). seg s" using pathSegments_seg by blast
  from segmentLoop_inv [OF segs inv root loop]
  have inv1: "heapInv h1 m1" and le: "nodeMap \<subseteq>\<^sub>m m1" by simp_all
  have root1: "m1 ''/'' = Some 0" using le root by (auto simp: map_le_def dom_def)
  have "insertUrl st (u, p, d) = (h1, m1) \<or>
        (\<exists>a. insertUrl st (u, p, d) = (h1[a := (h1 ! a)\<lparr> o_url := Some u \<rparr>], m1))"
    using loop by (auto simp: insertUrl_def st Let_def split: option.splits)
  then show ?thesis using inv1 root1 heapInv_url [OF inv1] by (auto simp: buildInv_def)
qed

lemma foldl_insertUrl_inv:
  "buildInv st \<Longrightarrow> buildInv (foldl insertUrl st entries)"
proof (induction entries arbitrary: st)
  case Nil
  then show ?case by simp
next
  case (Cons e entries)
  obtain u p d where e: "e = (u, p, d)" by (cases e)
  show ?case using Cons.IH [OF insertUrl_inv [OF Cons.prems, of u p d]] by (simp add: e)
qed

lemma buildInv_init:
  "buildInv ([\<lparr> o_name = host, o_url = x, o_path = ''/'', o_children = [],
                 o_screenshot = None \<rparr>], [''/'' \<mapsto> 0])"
  by (auto simp: buildInv_def heapInv_def split: if_splits)

lemma sourceTree_nodes: "sourceTree t \<Longrightarrow> n \<in> set (nodes t) \<Longrightarrow> sourceTree n"
  by (induction t arbitrary: n) auto

lemma sourceTree_prefix: "sourceTree t \<Longrightarrow> n \<in> set (nodes t) \<Longrightarrow> \<exists>r. path n = path t @ r"
proof (induction t arbitrary: n)
  case (Node nm u p cs s ie hs pp bs)
  show ?case
  proof (cases "n = Node nm u p cs s ie hs pp bs")
    case True
    then show ?thesis by simp
  next
    case False
    then obtain c where c: "c \<in> set cs" "n \<in> set (nodes c)" using Node.prems(2) by auto
    then have "sourceTree c" "path c = p @ name c @ ''/''" using Node.prems(1) by auto
    from Node.IH(1) [OF c(1) this(1) c(2)] this(2) show ?thesis by auto
  qed
qed

lemma takeWhile_seg:
  "CHR ''/'' \<notin> set a \<Longrightarrow> takeWhile (\<lambda>x. x \<noteq> CHR ''/'') (a @ CHR ''/'' # r) = a"
  by (induction a) auto

lemma seg_unique:
  assumes "seg a" "seg b" "a @ ''/'' @ r1 = b @ ''/'' @ r2"
  shows "a = b"
proof -
  have "takeWhile (\<lambda>x. x \<noteq> CHR ''/'') (a @ ''/'' @ r1) = a"
    using assms(1) by (simp add: seg_def takeWhile_seg)
  moreover have "takeWhile (\<lambda>x. x \<noteq> CHR ''/'') (b @ ''/'' @ r2) = b"
    using assms(2) by (simp add: seg_def takeWhile_seg)
  ultimately show ?thesis using assms(3) by simp
qed

lemma children_paths_distinct:
  assumes "distinct (map name cs)"
    and "\<forall>c \<in> set cs. seg (name c) \<and> path c = p @ name c @ ''/'' \<and> sourceTree c
           \<and> distinct (map path (nodes c))"
  shows "distinct (map path (concat (map nodes cs)))"
  using assms
proof (induction cs)
  case Nil
  then show ?case by simp
next
  case (Cons c cs)
  have rest: "distinct (map path (concat (map nodes cs)))" using Cons by simp
  have here: "distinct (map path (nodes c))" using Cons.prems(2) by simp
  have disj: "path n1 \<noteq> path n2"
    if n1: "n1 \<in> set (nodes c)" and n2: "n2 \<in> set (concat (map nodes cs))" for n1 n2
  proof
    assume eq: "path n1 = path n2"
    from n2 obtain c2 where c2: "c2 \<in> set cs" "n2 \<in> set (nodes c2)" by auto
    have sc: "seg (name c)" "path c = p @ name c @ ''/''" "sourceTree c"
      using Cons.prems(2) by simp_all
    have sc2: "seg (name c2)" "path c2 = p @ name c2 @ ''/''" "sourceTree c2"
      using Cons.prems(2) c2(1) by simp_all
    from sourceTree_prefix [OF sc(3) n1] obtain r1 where r1: "path n1 = path c @ r1" by blast
    from sourceTree_prefix [OF sc2(3) c2(2)] obtain r2 where r2: "path n2 = path c2 @ r2" by blast
    have "name c @ ''/'' @ r1 = name c2 @ ''/'' @ r2" using eq r1 r2 sc(2) sc2(2) by simp
    from seg_unique [OF sc(1) sc2(1) this] have "name c = name c2" .
    then show False using Cons.prems(1) c2(1) by auto
  qed
  show ?case using rest here disj by auto
qed

lemma sourceTree_distinct_paths: "sourceTree t \<Longrightarrow> distinct (map path (nodes t))"
proof (induction t)
  case (Node nm u p cs s ie hs pp bs)
  have kids: "\<forall>c \<in> set cs. seg (name c) \<and> path c = p @ name c @ ''/'' \<and> sourceTree c
           \<and> distinct (map path (nodes c))"
    using Node by auto
  have dn: "distinct (map name cs)" using Node.prems by simp
  have below: "path n \<noteq> p" if "n \<in> set (concat (map nodes cs))" for n
  proof -
    from that obtain c where c: "c \<in> set cs" "n \<in> set (nodes c)" by auto
    then have "sourceTree c" "path c = p @ name c @ ''/''" using kids by auto
    from sourceTree_prefix [OF this(1) c(2)] this(2) show ?thesis by auto
  qed
  show ?case using children_paths_distinct [OF dn kids] below by auto
qed

lemma sourceTree_child_paths:
  assumes "sourceTree t" "n \<in> set (nodes t)" "c \<in> set (children n)"
  shows "path c = path n @ name c @ ''/''"
proof -
  have "sourceTree n" using sourceTree_nodes [OF assms(1,2)] .
  then show ?thesis using assms(3) by (cases n) auto
qed

lemma treeAt_sourceTree:
  assumes inv: "heapInv h nodeMap"
  shows "a < length h \<Longrightarrow> length h - a \<le> n \<Longrightarrow>
         \<exists>t. treeAt n h a = Some t \<and> name t = o_name (h ! a) \<and> path t = o_path (h ! a)
              \<and> url t = o_url (h ! a) \<and> sourceTree t"
proof (induction n arbitrary: a)
  case 0
  then show ?case by simp
next
  case (Suc n)
  have i2: "\<And>a. a < length h \<Longrightarrow> nodeMap (o_path (h ! a)) = Some a"
    and i3: "\<And>a. a < length h \<Longrightarrow> distinct (o_children (h ! a))"
    and i4: "\<And>a c. a < length h \<Longrightarrow> c \<in> set (o_children (h ! a)) \<Longrightarrow>
               a < c \<and> c < length h \<and> seg (o_name (h ! c))
               \<and> o_path (h ! c) = o_path (h ! a) @ o_name (h ! c) @ ''/''"
    using inv unfolding heapInv_def by blast+
  define cs where "cs = o_children (h ! a)"
  have kid: "\<exists>t. treeAt n h c = Some t \<and> name t = o_name (h ! c) \<and> path t = o_path (h ! c)
              \<and> url t = o_url (h ! c) \<and> sourceTree t" if "c \<in> set cs" for c
  proof -
    have "a < c" "c < length h" using i4 [OF Suc.prems(1), of c] that by (simp_all add: cs_def)
    then show ?thesis using Suc.IH [of c] Suc.prems(2) by simp
  qed
  have noNone: "None \<notin> set (map (treeAt n h) cs)"
  proof
    assume "None \<in> set (map (treeAt n h) cs)"
    then obtain c where "c \<in> set cs" "treeAt n h c = None" by (auto simp: image_iff)
    then show False using kid [of c] by simp
  qed
  define t where "t = Node (o_name (h ! a)) (o_url (h ! a)) (o_path (h ! a))
                        (map the (map (treeAt n h) cs)) (o_screenshot (h ! a)) False [] None 0"
  have run: "treeAt (Suc n) h a = Some t"
    using Suc.prems(1) noNone by (simp add: t_def cs_def Let_def)
  have kn: "name (the (treeAt n h c)) = o_name (h ! c)" if "c \<in> set cs" for c
    using kid [OF that] by auto
  have names: "map name (map the (map (treeAt n h) cs)) = map (\<lambda>c. o_name (h ! c)) cs"
    using kn by (simp add: comp_def)
  have inj: "inj_on (\<lambda>c. o_name (h ! c)) (set cs)"
  proof (rule inj_onI)
    fix c1 c2 assume c: "c1 \<in> set cs" "c2 \<in> set cs" "o_name (h ! c1) = o_name (h ! c2)"
    have l: "c1 < length h" "c2 < length h"
      using i4 [OF Suc.prems(1), of c1] i4 [OF Suc.prems(1), of c2] c by (simp_all add: cs_def)
    have pe: "o_path (h ! c1) = o_path (h ! c2)"
      using i4 [OF Suc.prems(1), of c1] i4 [OF Suc.prems(1), of c2] c by (simp add: cs_def)
    from i2 [OF l(1)] have "nodeMap (o_path (h ! c2)) = Some c1" unfolding pe .
    with i2 [OF l(2)] show "c1 = c2" by simp
  qed
  have dn: "distinct (map name (map the (map (treeAt n h) cs)))"
    unfolding names using inj i3 [OF Suc.prems(1)] by (simp add: distinct_map cs_def)
  have each: "seg (name k) \<and> path k = o_path (h ! a) @ name k @ ''/'' \<and> sourceTree k"
    if "k \<in> set (map the (map (treeAt n h) cs))" for k
  proof -
    from that obtain c where c: "c \<in> set cs" "k = the (treeAt n h c)"
      by (auto simp: image_iff)
    from kid [OF c(1)] c(2) have "name k = o_name (h ! c)" "path k = o_path (h ! c)" "sourceTree k"
      by auto
    then show ?thesis using i4 [OF Suc.prems(1), of c] c(1) by (simp add: cs_def)
  qed
  have "sourceTree t" using dn each by (simp add: t_def)
  then show ?case using run by (simp add: t_def)
qed

lemma buildUrlTree_sourceTree:
  assumes "hostname baseUrl = Some host"
  shows "\<exists>h t. buildUrlTree hostname pathname urls baseUrl = Inr h \<and> treeOf h = Some t
           \<and> path t = ''/'' \<and> sourceTree t"
proof -
  define root where "root = \<lparr> o_name = host, o_url = Some baseUrl, o_path = ''/'',
                               o_children = [], o_screenshot = None \<rparr>"
  define st where "st = foldl insertUrl ([root], [''/'' \<mapsto> 0]) (sortedUrls pathname urls)"
  have run: "buildUrlTree hostname pathname urls baseUrl = Inr (fst st)"
    using assms by (simp add: buildUrlTree_def st_def root_def)
  have "buildInv st" unfolding st_def root_def
    by (rule foldl_insertUrl_inv) (rule buildInv_init)
  then have inv: "heapInv (fst st) (snd st)" and r0: "snd st ''/'' = Some 0"
    by (simp_all add: buildInv_def)
  have l0: "0 < length (fst st)" and p0: "o_path (fst st ! 0) = ''/''"
    using inv r0 unfolding heapInv_def by blast+
  from treeAt_sourceTree [OF inv l0, of "length (fst st)"]
  obtain t where "treeOf (fst st) = Some t" "path t = ''/''" "sourceTree t"
    using p0 by (auto simp: treeOf_def)
  then show ?thesis using run by blast
qed

text \<open>
  Claim C1. For every list of url strings and every parseable base url, the tree that
  \<^verbatim>\<open>buildUrlTree\<close> returns has no two nodes with the same path, and the path of every
  child is the path of its parent followed by the child's name and \<^verbatim>\<open>/\<close>.
\<close>

theorem buildUrlTree_unique_paths:
  assumes "hostname baseUrl = Some host"
  shows "\<exists>h t. buildUrlTree hostname pathname urls baseUrl = Inr h \<and> treeOf h = Some t
           \<and> path t = ''/''
           \<and> distinct (map path (nodes t))
           \<and> (\<forall>n \<in> set (nodes t). \<forall>c \<in> set (children n). path c = path n @ name c @ ''/'')"
proof -
  from assms have "\<exists>h t. buildUrlTree hostname pathname urls baseUrl = Inr h
           \<and> treeOf h = Some t \<and> path t = ''/'' \<and> sourceTree t"
    by (rule buildUrlTree_sourceTree)
  then obtain h t where ht: "buildUrlTree hostname pathname urls baseUrl = Inr h" "treeOf h = Some t"
    "path t = ''/''" "sourceTree t" by blast
  have "distinct (map path (nodes t))" using ht(4) by (rule sourceTree_distinct_paths)
  moreover have "\<forall>n \<in> set (nodes t). \<forall>c \<in> set (children n). path c = path n @ name c @ ''/''"
    using sourceTree_child_paths [OF ht(4)] by blast
  ultimately show ?thesis using ht by blast
qed

lemma buildUrlTree_example:
  "map_sum id treeOf (buildUrlTree demoHostname demoPathname demoUrls ''https://example.com'') =
   Inr (Some
       (Node ''example.com'' (Some ''https://example.com'') ''/''
         [Node ''a'' (Some ''https://example.com/a/'') ''/a/''
           [Node ''x'' (Some ''https://example.com/a/x/'') ''/a/x/'' [] None False [] None 0,
            Node ''y'' (Some ''https://example.com/a/y/'') ''/a/y/'' [] None False [] None 0]
           None False [] None 0,
          Node ''b'' (Some ''https://example.com/b/'') ''/b/''
           [Node ''z'' (Some ''https://example.com/b/z/'') ''/b/z/'' [] None False [] None 0]
           None False [] None 0]
         None False [] None 0))"
  by code_simp

theorem buildUrlTree_unique_paths_witness:
  "demoHostname ''https://example.com'' = Some ''example.com''
   \<and> (\<exists>h t. buildUrlTree demoHostname demoPathname demoUrls ''https://example.com'' = Inr h
         \<and> treeOf h = Some t
         \<and> map path (nodes t) = [''/'', ''/a/'', ''/a/x/'', ''/a/y/'', ''/b/'', ''/b/z/'']
         \<and> distinct (map path (nodes t)))"
proof -
  have host: "demoHostname ''https://example.com'' = Some ''example.com''"
    by (simp add: demoHostname_def)
  from host have "\<exists>h t. buildUrlTree demoHostname demoPathname demoUrls ''https://example.com'' = Inr h
           \<and> treeOf h = Some t \<and> path t = ''/''
           \<and> distinct (map path (nodes t))
           \<and> (\<forall>n \<in> set (nodes t). \<forall>c \<in> set (children n). path c = path n @ name c @ ''/'')"
    by (rule buildUrlTree_unique_paths)
  then obtain h t where ht: "buildUrlTree demoHostname demoPathname demoUrls ''https://example.com'' = Inr h"
    "treeOf h = Some t" "distinct (map path (nodes t))" by blast
  have paths: "map path (nodes t) = [''/'', ''/a/'', ''/a/x/'', ''/a/y/'', ''/b/'', ''/b/z/'']"
    using buildUrlTree_example ht(1,2) by simp
  show ?thesis
    by (intro conjI exI [of _ h] exI [of _ t]) (rule host ht paths)+
qed

text \<open>
  The same collision on the tree built from six urls, the first being
  \<^verbatim>\<open>https://example.com/_more\<close>: the paths and ellipsis flags of the collapsed
  root's children.
\<close>

theorem ellipsis_path_collision_built:
  "map_sum id (map_option (\<lambda>t. map (\<lambda>c. (path c, isEllipsis c)) (children (collapseTree 5 t))) \<circ> treeOf)
     (buildUrlTree demoHostname demoPathname moreUrls ''https://example.com'') =
   Inr (Some [(''/_more/'', False), (''/b/'', False), (''/c/'', False), (''/d/'', False),
              (''/_more/'', True)])"
  by code_simp

section \<open>Properties of the Expansion Controller\<close>

text \<open>
  Claim C7. While \<^verbatim>\<open>isExpanding\<close> is set, a click on an ellipsis node or on a
  placeholder node leaves the whole page state as it is: the display tree, the dataset,
  the pending request, and the list of messages sent (no capture request goes out).
  While \<^verbatim>\<open>isRunning\<close> is set, a \<^verbatim>\<open>captureMore\<close> request captures nothing and leaves the
  stored dataset and both flags as they are; the worker only answers the requesting
  tab with \<^verbatim>\<open>captureMoreError\<close>.
\<close>

theorem in_flight_trigger_rejected:
  "(isExpanding pg \<longrightarrow>
      handleExpandClick pg d3Node = pg \<and> handleSingleNodeCapture pg d3Node = pg)
   \<and> (isRunning w \<longrightarrow>
        captureMoreScreenshots env w urls pPath opts sourceTabId =
          w\<lparr> outbox := outbox w @
                 [(sourceTabId, CaptureMoreError ''Another capture is in progress'' pPath)] \<rparr>
        \<and> storage (captureMoreScreenshots env w urls pPath opts sourceTabId) = storage w
        \<and> isRunning (captureMoreScreenshots env w urls pPath opts sourceTabId)
        \<and> shouldCancel (captureMoreScreenshots env w urls pPath opts sourceTabId) = shouldCancel w)"
  by (simp add: handleExpandClick_def handleSingleNodeCapture_def captureMoreScreenshots_def)

theorem in_flight_trigger_rejected_witness:
  "isExpanding busyPage
   \<and> handleExpandClick busyPage [4] = busyPage
   \<and> handleSingleNodeCapture busyPage [1] = busyPage
   \<and> isRunning busyWorker
   \<and> captureMoreScreenshots flaky busyWorker [''https://example.com/b/''] (Some ''/b/'')
        \<lparr> loadTimeout = 5000, captureDelay = 1000 \<rparr> (Some 7) =
       \<lparr> isRunning = True, shouldCancel = False, storage = None,
         outbox = [(Some 7, CaptureMoreError ''Another capture is in progress'' (Some ''/b/''))] \<rparr>"
proof -
  have p: "isExpanding busyPage" by (simp add: busyPage_def)
  have w: "isRunning busyWorker" by (simp add: busyWorker_def)
  from in_flight_trigger_rejected [of busyPage "[4]" busyWorker] p
  have a: "handleExpandClick busyPage [4] = busyPage" by blast
  from in_flight_trigger_rejected [of busyPage "[1]" busyWorker] p
  have b: "handleSingleNodeCapture busyPage [1] = busyPage" by blast
  from in_flight_trigger_rejected [of busyPage "[1]" busyWorker flaky
      "[''https://example.com/b/'']" "Some ''/b/''" "\<lparr> loadTimeout = 5000, captureDelay = 1000 \<rparr>"
      "Some 7"] w
  have "captureMoreScreenshots flaky busyWorker [''https://example.com/b/''] (Some ''/b/'')
        \<lparr> loadTimeout = 5000, captureDelay = 1000 \<rparr> (Some 7) =
       busyWorker\<lparr> outbox := outbox busyWorker @
                 [(Some 7, CaptureMoreError ''Another capture is in progress'' (Some ''/b/''))] \<rparr>"
    by blast
  then have c: "captureMoreScreenshots flaky busyWorker [''https://example.com/b/''] (Some ''/b/'')
        \<lparr> loadTimeout = 5000, captureDelay = 1000 \<rparr> (Some 7) =
       \<lparr> isRunning = True, shouldCancel = False, storage = None,
         outbox = [(Some 7, CaptureMoreError ''Another capture is in progress'' (Some ''/b/''))] \<rparr>"
    by (simp add: busyWorker_def)
  show ?thesis using p w a b c by (intro conjI)
qed

section \<open>Properties of collapsing and expanding\<close>

lemma small_collapse: "small t \<Longrightarrow> collapseTree 5 t = t"
proof (induction t)
  case (Node nm u p cs s ie hs pp bs)
  have "map (collapseTree 5) cs = cs" using Node by (simp add: map_idI)
  then show ?case using Node.prems by (simp add: collapseTree_5 del: collapseTree.simps)
qed

lemma collapse_small: "small (collapseTree 5 t)"
proof (induction t)
  case (Node nm u p cs s ie hs pp bs)
  have kids: "\<forall>c \<in> set (map (collapseTree 5) cs). small c" using Node by simp
  have "\<forall>c \<in> set (take 4 (map (collapseTree 5) cs)). small c"
    using kids by (meson in_set_takeD)
  then show ?case using kids
    by (simp add: collapseTree_5 ellipsisNode_def take_map del: collapseTree.simps)
qed

lemma collapse_fields:
  "name (collapseTree 5 t) = name t \<and> path (collapseTree 5 t) = path t
   \<and> url (collapseTree 5 t) = url t \<and> isEllipsis (collapseTree 5 t) = isEllipsis t
   \<and> hiddenChildren (collapseTree 5 t) = hiddenChildren t
   \<and> parentPath (collapseTree 5 t) = parentPath t"
  by (cases t) (simp add: collapseTree_5 del: collapseTree.simps)

lemma attach_fields:
  "name (attachScreenshotsToNode m t) = name t \<and> path (attachScreenshotsToNode m t) = path t
   \<and> url (attachScreenshotsToNode m t) = url t
   \<and> isEllipsis (attachScreenshotsToNode m t) = isEllipsis t
   \<and> hiddenChildren (attachScreenshotsToNode m t) = hiddenChildren t
   \<and> parentPath (attachScreenshotsToNode m t) = parentPath t
   \<and> length (children (attachScreenshotsToNode m t)) = length (children t)"
  by (cases t) simp

lemma reveal_attach: "reveal (attachScreenshotsToNode m t) = reveal t"
proof (induction t)
  case (Node nm u p cs s ie hs pp bs)
  have "map reveal (map (attachScreenshotsToNode m) cs) = map reveal cs"
    using Node.IH(1) by simp
  then have "concat (map reveal (map (attachScreenshotsToNode m) cs)) = concat (map reveal cs)"
    by (rule arg_cong)
  then show ?case by simp
qed

lemma reveal_collapse: "reveal (collapseTree 5 t) = reveal t"
proof (induction t)
  case (Node nm u p cs s ie hs pp bs)
  have m: "map reveal (map (collapseTree 5) cs) = map reveal cs"
    using Node.IH(1) by simp
  have all: "concat (map reveal (map (collapseTree 5) cs)) = concat (map reveal cs)"
    using m by (rule arg_cong)
  have split: "concat (map reveal (take 4 (map (collapseTree 5) cs)))
               @ concat (map reveal (drop 4 (map (collapseTree 5) cs)))
               = concat (map reveal cs)"
    using all by (metis append_take_drop_id concat_append map_append)
  show ?case using all split
    by (simp add: collapseTree_5 ellipsisNode_def take_map drop_map del: collapseTree.simps)
qed

lemma firstFound_None: "firstFound i rs = None \<longleftrightarrow> (\<forall>r \<in> set rs. r = None)"
  by (induction i rs rule: firstFound.induct) auto

lemma firstFound_at:
  "k < length rs \<Longrightarrow> rs ! k = Some r \<Longrightarrow> (\<forall>j < k. rs ! j = None) \<Longrightarrow>
   firstFound i rs = Some ((i + k) # r)"
proof (induction i rs arbitrary: k rule: firstFound.induct)
  case (1 i)
  then show ?case by simp
next
  case (2 i rs)
  then obtain k' where k': "k = Suc k'" by (cases k) auto
  have "\<forall>j < k'. rs ! j = None" using 2(4) k' by auto
  then show ?case using 2 k' by simp
next
  case (3 i pos rs)
  then have "k = 0" by (cases k) auto
  then show ?case using 3 by simp
qed

lemma firstFound_Some:
  "firstFound i rs = Some pos \<Longrightarrow>
   \<exists>k r. k < length rs \<and> rs ! k = Some r \<and> pos = (i + k) # r \<and> (\<forall>j < k. rs ! j = None)"
proof (induction i rs rule: firstFound.induct)
  case (1 i)
  then show ?case by simp
next
  case (2 i rs)
  then obtain k r where kr: "k < length rs" "rs ! k = Some r" "pos = (i + 1 + k) # r"
    "\<forall>j < k. rs ! j = None" by auto
  have "\<forall>j < Suc k. (None # rs) ! j = None" using kr(4) by (auto simp: nth_Cons split: nat.splits)
  then show ?case using kr by (intro exI [of _ "Suc k"] exI [of _ r]) simp
next
  case (3 i p rs)
  then show ?case by (intro exI [of _ 0] exI [of _ p]) simp
qed

lemma kidNames_append: "kidNames (xs @ ys) = kidNames xs @ kidNames ys"
  by (simp add: kidNames_def)

lemma kidNames_real: "\<forall>c \<in> set cs. \<not> isEllipsis c \<Longrightarrow> kidNames cs = map name cs"
  by (induction cs) (simp_all add: kidNames_def)

lemma kidNames_ellipsis: "kidNames [ellipsisNode p hs] = map name hs"
  by (simp add: kidNames_def ellipsisNode_def)

lemma erase_fields:
  "name (eraseScreenshots t) = name t \<and> path (eraseScreenshots t) = path t
   \<and> url (eraseScreenshots t) = url t"
  by (cases t) simp

lemma reveal_no_ellipsis: "firstEllipsis D = None \<Longrightarrow> reveal D = [eraseScreenshots D]"
proof (induction D)
  case (Node nm u p cs s ie hs pp bs)
  have ie: "\<not> ie" using Node.prems by (auto split: if_splits)
  have "\<forall>c \<in> set cs. firstEllipsis c = None"
    using Node.prems ie by (simp add: firstFound_None)
  then have "map reveal cs = map (\<lambda>c. [eraseScreenshots c]) cs" using Node.IH(1) by simp
  then have "concat (map reveal cs) = concat (map (\<lambda>c. [eraseScreenshots c]) cs)"
    by (rule arg_cong)
  also have "\<dots> = map eraseScreenshots cs" by (induction cs) simp_all
  finally show ?case using ie by simp
qed

lemma sourceTree_no_ellipsis: "sourceTree t \<Longrightarrow> firstEllipsis t = None"
proof (induction t)
  case (Node nm u p cs s ie hs pp bs)
  then have "\<forall>c \<in> set cs. firstEllipsis c = None" by simp
  then show ?case using Node.prems by (simp add: firstFound_None)
qed

lemma nodes_erase:
  "map (\<lambda>x. (path x, url x)) (nodes (eraseScreenshots t)) = map (\<lambda>x. (path x, url x)) (nodes t)"
proof (induction t)
  case (Node nm u p cs s ie hs pp bs)
  have "map (\<lambda>c. map (\<lambda>x. (path x, url x)) (nodes (eraseScreenshots c))) cs =
        map (\<lambda>c. map (\<lambda>x. (path x, url x)) (nodes c)) cs"
    using Node.IH(1) by simp
  then have "concat (map (\<lambda>c. map (\<lambda>x. (path x, url x)) (nodes (eraseScreenshots c))) cs) =
        concat (map (\<lambda>c. map (\<lambda>x. (path x, url x)) (nodes c)) cs)"
    by (rule arg_cong)
  then show ?case by (simp add: map_concat comp_def)
qed

lemma collapse_display:
  "sourceTree t \<Longrightarrow> displayTree (collapseTree 5 t) \<and> \<not> isEllipsis (collapseTree 5 t)"
proof (induction t)
  case (Node nm u p cs s ie hs pp bs)
  define cs' where "cs' = map (collapseTree 5) cs"
  have src: "\<not> ie" "distinct (map name cs)"
    "\<And>c. c \<in> set cs \<Longrightarrow> seg (name c) \<and> path c = p @ name c @ ''/'' \<and> sourceTree c"
    using Node.prems by auto
  have kid: "displayTree c' \<and> \<not> isEllipsis c' \<and> childOf p c' \<and> small c'"
    if "c' \<in> set cs'" for c'
  proof -
    from that obtain c where c: "c \<in> set cs" "c' = collapseTree 5 c" by (auto simp: cs'_def)
    show ?thesis
      using Node.IH(1) [OF c(1)] src(3) [OF c(1)] collapse_fields [of c] collapse_small [of c] c(2)
      by (simp add: childOf_def)
  qed
  have names: "map name cs' = map name cs" by (simp add: cs'_def collapse_fields)
  have real: "\<forall>c \<in> set cs'. \<not> isEllipsis c" using kid by blast
  show ?case
  proof (cases "5 < length cs")
    case False
    have "collapseTree 5 (Node nm u p cs s ie hs pp bs) = Node nm u p cs' s ie hs pp bs"
      using False by (simp add: collapseTree_5 cs'_def del: collapseTree.simps)
    moreover have "\<forall>c \<in> set (butlast cs'). \<not> isEllipsis c" using real by (meson in_set_butlastD)
    moreover have "distinct (kidNames cs')" using kidNames_real [OF real] names src(2) by simp
    ultimately show ?thesis using kid real src(1) by (simp add: kidLink_def)
  next
    case True
    define E where "E = ellipsisNode p (drop 4 cs')"
    have run: "collapseTree 5 (Node nm u p cs s ie hs pp bs) =
               Node nm u p (take 4 cs' @ [E]) s ie hs pp bs"
      using True by (simp add: collapseTree_5 cs'_def E_def take_map drop_map del: collapseTree.simps)
    have t4: "\<And>c. c \<in> set (take 4 cs') \<Longrightarrow> c \<in> set cs'" by (rule in_set_takeD)
    have d4: "\<And>c. c \<in> set (drop 4 cs') \<Longrightarrow> c \<in> set cs'" by (rule in_set_dropD)
    have ne: "drop 4 cs' \<noteq> []" using True by (simp add: cs'_def)
    have dE: "displayTree E" using kid d4 ne by (simp add: E_def ellipsisNode_def)
    have cE: "kidLink p E"
      using kid d4 by (simp add: E_def ellipsisNode_def kidLink_def)
    have r4: "\<forall>c \<in> set (take 4 cs'). \<not> isEllipsis c" using real t4 by blast
    have "kidNames (take 4 cs' @ [E]) = map name (take 4 cs') @ map name (drop 4 cs')"
      using kidNames_real [OF r4] by (simp add: kidNames_append E_def kidNames_ellipsis)
    also have "\<dots> = map name cs'" by (metis append_take_drop_id map_append)
    finally have dk: "distinct (kidNames (take 4 cs' @ [E]))" using names src(2) by simp
    have each: "displayTree c \<and> kidLink p c" if "c \<in> set (take 4 cs' @ [E])" for c
    proof (cases "c = E")
      case True
      then show ?thesis using dE cE by simp
    next
      case False
      then have "c \<in> set cs'" using that t4 by auto
      then show ?thesis using kid by (simp add: kidLink_def)
    qed
    show ?thesis unfolding run using each r4 dk src(1) by simp
  qed
qed

lemma kidLink_fields:
  assumes "name c' = name c" "path c' = path c" "isEllipsis c' = isEllipsis c"
    "hiddenChildren c' = hiddenChildren c" "parentPath c' = parentPath c"
  shows "kidLink p c' = kidLink p c"
  using assms by (simp add: kidLink_def childOf_def)

lemma kidNames_fields:
  assumes "\<forall>c \<in> set cs. name (f c) = name c \<and> isEllipsis (f c) = isEllipsis c
             \<and> hiddenChildren (f c) = hiddenChildren c"
  shows "kidNames (map f cs) = kidNames cs"
  using assms by (induction cs) (simp_all add: kidNames_def)

lemma attach_display: "displayTree t \<Longrightarrow> displayTree (attachScreenshotsToNode m t)"
proof (induction t)
  case (Node nm u p cs s ie hs pp bs)
  show ?case
  proof (cases ie)
    case True
    then show ?thesis using Node.prems by simp
  next
    case False
    let ?f = "attachScreenshotsToNode m"
    have kid: "displayTree (?f c) \<and> kidLink p (?f c)" if "c \<in> set cs" for c
    proof -
      have "displayTree c" "kidLink p c" using Node.prems False that by simp_all
      then show ?thesis
        using Node.IH(1) [OF that] kidLink_fields [of "?f c" c p] attach_fields [of m c] by simp
    qed
    have bl: "\<forall>c \<in> set (butlast (map ?f cs)). \<not> isEllipsis c"
      using Node.prems False attach_fields by (simp add: map_butlast [symmetric])
    have kn: "kidNames (map ?f cs) = kidNames cs"
      by (rule kidNames_fields) (simp add: attach_fields)
    show ?thesis using False kid bl kn Node.prems by simp
  qed
qed

lemma attach_small: "small t \<Longrightarrow> small (attachScreenshotsToNode m t)"
  by (induction t) simp

lemma attach_weight: "hiddenWeight (attachScreenshotsToNode m t) = hiddenWeight t"
proof (induction t)
  case (Node nm u p cs s ie hs pp bs)
  have "map hiddenWeight (map (attachScreenshotsToNode m) cs) = map hiddenWeight cs"
    using Node.IH(1) by simp
  then have "sum_list (map hiddenWeight (map (attachScreenshotsToNode m) cs)) =
             sum_list (map hiddenWeight cs)"
    by (rule arg_cong)
  then show ?case by simp
qed

lemma revealed_small: "small h \<Longrightarrow> revealed m h = attachScreenshotsToNode m h"
  by (simp add: revealed_def small_collapse attach_small)

lemma revealed_facts:
  assumes "small h" "displayTree h"
  shows "displayTree (revealed m h) \<and> name (revealed m h) = name h
         \<and> path (revealed m h) = path h \<and> isEllipsis (revealed m h) = isEllipsis h
         \<and> hiddenChildren (revealed m h) = hiddenChildren h
         \<and> parentPath (revealed m h) = parentPath h
         \<and> hiddenWeight (revealed m h) = hiddenWeight h
         \<and> reveal (revealed m h) = reveal h"
  using assms attach_display [of h m] attach_fields [of m h] attach_weight [of m h]
    reveal_attach [of m h]
  by (simp add: revealed_small)

lemma nodeAt_display:
  "displayTree D \<Longrightarrow> nodeAt D pos = Some M \<Longrightarrow> displayTree M"
proof (induction pos arbitrary: D)
  case Nil
  then show ?case by simp
next
  case (Cons i pos)
  then have i: "i < length (children D)" and sub: "nodeAt (children D ! i) pos = Some M"
    by (auto split: if_splits)
  have "displayTree (children D ! i)"
    using Cons.prems(1) i by (cases D) (auto split: if_splits)
  from Cons.IH [OF this sub] show ?case .
qed

lemma nodes_self: "t \<in> set (nodes t)"
  by (cases t) simp

lemma nodeAt_nodes: "nodeAt D pos = Some M \<Longrightarrow> M \<in> set (nodes D)"
proof (induction pos arbitrary: D)
  case Nil
  then show ?case by (simp add: nodes_self)
next
  case (Cons i pos)
  then have i: "i < length (children D)" and sub: "nodeAt (children D ! i) pos = Some M"
    by (auto split: if_splits)
  from Cons.IH [OF sub] i show ?case by (cases D) auto
qed

lemma display_prefix:
  "displayTree D \<Longrightarrow> \<not> isEllipsis D \<Longrightarrow> n \<in> set (nodes D) \<Longrightarrow> \<exists>r. path n = path D @ r"
proof (induction D arbitrary: n)
  case (Node nm u p cs s ie hs pp bs)
  show ?case
  proof (cases "n = Node nm u p cs s ie hs pp bs")
    case True
    then show ?thesis by simp
  next
    case False
    then obtain c where c: "c \<in> set cs" "n \<in> set (nodes c)" using Node.prems(3) by auto
    have dc: "displayTree c" "kidLink p c" using Node.prems(1,2) c(1) by simp_all
    show ?thesis
    proof (cases "isEllipsis c")
      case True
      then have "children c = []" using dc(1) by (cases c) simp
      then have "n = c" using c(2) by (cases c) simp
      then show ?thesis using dc(2) True by (simp add: kidLink_def)
    next
      case False
      from Node.IH(1) [OF c(1) dc(1) False c(2)] obtain r where "path n = path c @ r" by blast
      then show ?thesis using dc(2) False by (simp add: kidLink_def childOf_def)
    qed
  qed
qed

lemma find_None:
  "\<forall>n \<in> set (nodes t). path n \<noteq> target \<Longrightarrow> findNodeByPath t target = None"
proof (induction t)
  case (Node nm u p cs s ie hs pp bs)
  have "p \<noteq> target" using Node.prems by simp
  moreover have "\<forall>c \<in> set cs. findNodeByPath c target = None"
    using Node by auto
  ultimately show ?case by (simp add: firstFound_None)
qed

lemma kidNames_mem: "c \<in> set cs \<Longrightarrow> \<not> isEllipsis c \<Longrightarrow> name c \<in> set (kidNames cs)"
  by (induction cs) (auto simp: kidNames_def)

lemma kidNames_distinct_names:
  assumes "distinct (kidNames cs)" "j < i" "i < length cs"
    "\<not> isEllipsis (cs ! j)" "\<not> isEllipsis (cs ! i)"
  shows "name (cs ! j) \<noteq> name (cs ! i)"
proof -
  have split: "cs = take i cs @ (cs ! i # drop (Suc i) cs)"
    using assms(3) by (simp add: id_take_nth_drop)
  have "cs ! j \<in> set (take i cs)" using assms(2,3) by (metis in_set_conv_nth length_take min.absorb2 nat_less_le nth_take)
  then have a: "name (cs ! j) \<in> set (kidNames (take i cs))" using assms(4) by (rule kidNames_mem)
  have b: "name (cs ! i) \<in> set (kidNames (cs ! i # drop (Suc i) cs))"
    using assms(5) by (intro kidNames_mem) simp_all
  have "distinct (kidNames (take i cs) @ kidNames (cs ! i # drop (Suc i) cs))"
    using assms(1) split kidNames_append by metis
  then show ?thesis using a b by auto
qed

lemma ellipsis_no_children: "displayTree c \<Longrightarrow> isEllipsis c \<Longrightarrow> children c = []"
  by (cases c) simp

lemma display_kid:
  "displayTree D \<Longrightarrow> \<not> isEllipsis D \<Longrightarrow> c \<in> set (children D) \<Longrightarrow>
   displayTree c \<and> kidLink (path D) c"
  by (cases D) simp

lemma display_butlast:
  "displayTree D \<Longrightarrow> \<not> isEllipsis D \<Longrightarrow> c \<in> set (butlast (children D)) \<Longrightarrow> \<not> isEllipsis c"
  by (cases D) simp

lemma display_distinct:
  "displayTree D \<Longrightarrow> \<not> isEllipsis D \<Longrightarrow> distinct (kidNames (children D))"
  by (cases D) simp

lemma find_self: "findNodeByPath N (path N) = Some []"
  by (cases N) simp

lemma find_children:
  "path N \<noteq> target \<Longrightarrow>
   findNodeByPath N target = firstFound 0 (map (\<lambda>c. findNodeByPath c target) (children N))"
  by (cases N) simp

lemma find_owner:
  "displayTree N \<Longrightarrow> \<not> isEllipsis N \<Longrightarrow> nodeAt N pos = Some M \<Longrightarrow> \<not> isEllipsis M \<Longrightarrow>
   findNodeByPath N (path M) = Some pos"
proof (induction pos arbitrary: N)
  case Nil
  then show ?case by (simp add: find_self)
next
  case (Cons i rest)
  define cs where "cs = children N"
  have i: "i < length cs" and sub: "nodeAt (cs ! i) rest = Some M"
    using Cons.prems(3) by (auto simp: cs_def split: if_splits)
  have ci: "cs ! i \<in> set cs" using i by simp
  have dk: "displayTree (cs ! i)" "kidLink (path N) (cs ! i)"
    using display_kid [OF Cons.prems(1,2)] ci by (simp_all add: cs_def)
  have real: "\<not> isEllipsis (cs ! i)"
  proof
    assume e: "isEllipsis (cs ! i)"
    then have "children (cs ! i) = []" using dk(1) by (rule ellipsis_no_children [rotated])
    then have "rest = []" using sub by (cases rest) auto
    then show False using sub e Cons.prems(4) by simp
  qed
  then have co: "seg (name (cs ! i))" "path (cs ! i) = path N @ name (cs ! i) @ ''/''"
    using dk(2) by (simp_all add: kidLink_def childOf_def)
  from display_prefix [OF dk(1) real nodeAt_nodes [OF sub]]
  obtain r where r: "path M = path (cs ! i) @ r" by blast
  have ne: "path N \<noteq> path M" using r co(2) by simp
  have before: "findNodeByPath (cs ! j) (path M) = None" if j: "j < i" for j
  proof (rule find_None, rule ballI)
    fix n assume n: "n \<in> set (nodes (cs ! j))"
    have jl: "j < length cs - 1" using j i by simp
    then have "cs ! j \<in> set (butlast cs)"
      by (metis in_set_conv_nth length_butlast nth_butlast)
    then have rj: "\<not> isEllipsis (cs ! j)"
      using display_butlast [OF Cons.prems(1,2)] by (simp add: cs_def)
    have cj: "cs ! j \<in> set cs" using jl by simp
    have dj: "displayTree (cs ! j)" "kidLink (path N) (cs ! j)"
      using display_kid [OF Cons.prems(1,2)] cj by (simp_all add: cs_def)
    then have cjo: "seg (name (cs ! j))" "path (cs ! j) = path N @ name (cs ! j) @ ''/''"
      using rj by (simp_all add: kidLink_def childOf_def)
    from display_prefix [OF dj(1) rj n] obtain r' where r': "path n = path (cs ! j) @ r'" by blast
    show "path n \<noteq> path M"
    proof
      assume "path n = path M"
      then have "name (cs ! j) @ ''/'' @ r' = name (cs ! i) @ ''/'' @ r"
        using r r' co(2) cjo(2) by simp
      from seg_unique [OF cjo(1) co(1) this] have "name (cs ! j) = name (cs ! i)" .
      moreover have "name (cs ! j) \<noteq> name (cs ! i)"
        using kidNames_distinct_names [OF _ j i rj real] display_distinct [OF Cons.prems(1,2)]
        by (simp add: cs_def)
      ultimately show False by simp
    qed
  qed
  have here: "findNodeByPath (cs ! i) (path M) = Some rest"
    using Cons.IH [OF dk(1) real sub Cons.prems(4)] .
  have "firstFound 0 (map (\<lambda>c. findNodeByPath c (path M)) cs) = Some ((0 + i) # rest)"
    by (rule firstFound_at) (use i here before in simp_all)
  then show ?case using find_children [OF ne] by (simp add: cs_def)
qed

lemma ellipsis_owner:
  "displayTree D \<Longrightarrow> \<not> isEllipsis D \<Longrightarrow> nodeAt D pos = Some e \<Longrightarrow> isEllipsis e \<Longrightarrow>
   \<exists>ppos M pre. nodeAt D ppos = Some M \<and> \<not> isEllipsis M \<and> children M = pre @ [e]
      \<and> (\<forall>c \<in> set pre. \<not> isEllipsis c) \<and> kidLink (path M) e"
proof (induction pos arbitrary: D)
  case Nil
  then show ?case by simp
next
  case (Cons i rest)
  define cs where "cs = children D"
  have i: "i < length cs" and sub: "nodeAt (cs ! i) rest = Some e"
    using Cons.prems(3) by (auto simp: cs_def split: if_splits)
  have ci: "cs ! i \<in> set cs" using i by simp
  have dk: "displayTree (cs ! i)" "kidLink (path D) (cs ! i)"
    using display_kid [OF Cons.prems(1,2)] ci by (simp_all add: cs_def)
  show ?case
  proof (cases "isEllipsis (cs ! i)")
    case True
    then have "children (cs ! i) = []" using dk(1) by (rule ellipsis_no_children [rotated])
    then have "rest = []" using sub by (cases rest) auto
    then have e: "e = cs ! i" using sub by simp
    have last: "i = length cs - 1"
    proof (rule ccontr)
      assume "i \<noteq> length cs - 1"
      then have "i < length cs - 1" using i by simp
      then have "cs ! i \<in> set (butlast cs)"
        by (metis in_set_conv_nth length_butlast nth_butlast)
      then show False using display_butlast [OF Cons.prems(1,2)] True by (simp add: cs_def)
    qed
    have ne: "cs \<noteq> []" using i by auto
    have "cs = butlast cs @ [e]"
      using e last ne by (metis append_butlast_last_id last_conv_nth)
    moreover have "\<forall>c \<in> set (butlast cs). \<not> isEllipsis c"
      using display_butlast [OF Cons.prems(1,2)] by (simp add: cs_def)
    moreover have "nodeAt D [] = Some D" by simp
    ultimately show ?thesis using Cons.prems(2) dk(2) e unfolding cs_def by blast
  next
    case False
    from Cons.IH [OF dk(1) False sub Cons.prems(4)]
    obtain ppos M pre where o: "nodeAt (cs ! i) ppos = Some M" "\<not> isEllipsis M"
      "children M = pre @ [e]" "\<forall>c \<in> set pre. \<not> isEllipsis c" "kidLink (path M) e" by blast
    have "nodeAt D (i # ppos) = Some M" using o(1) i by (simp add: cs_def)
    then show ?thesis using o by blast
  qed
qed

lemma updateAt_children:
  "i < length (children D) \<Longrightarrow>
   children (updateAt f D (i # pos)) = (children D)[i := updateAt f (children D ! i) pos]
   \<and> sameFields (updateAt f D (i # pos)) D"
  by (cases D) (simp add: sameFields_def)

lemma reveal_children:
  "\<not> isEllipsis D \<Longrightarrow> sameFields D' D \<Longrightarrow> url D' = url D
   \<Longrightarrow> expandBatchSize D' = expandBatchSize D
   \<Longrightarrow> concat (map reveal (children D')) = concat (map reveal (children D))
   \<Longrightarrow> reveal D' = reveal D"
  by (cases D; cases D') (simp add: sameFields_def)

lemma updateAt_more:
  "i < length (children D) \<Longrightarrow>
   url (updateAt f D (i # pos)) = url D
   \<and> expandBatchSize (updateAt f D (i # pos)) = expandBatchSize D"
  by (cases D) simp

lemma updateAt_reveal:
  "nodeAt D pos = Some M \<Longrightarrow> reveal (f M) = reveal M \<Longrightarrow> reveal (updateAt f D pos) = reveal D"
proof (induction pos arbitrary: D)
  case Nil
  then show ?case by simp
next
  case (Cons i rest)
  have i: "i < length (children D)" and sub: "nodeAt (children D ! i) rest = Some M"
    using Cons.prems(1) by (auto split: if_splits)
  let ?c' = "updateAt f (children D ! i) rest"
  have c': "reveal ?c' = reveal (children D ! i)" using Cons.IH [OF sub Cons.prems(2)] .
  have "map reveal ((children D)[i := ?c']) = (map reveal (children D))[i := reveal ?c']"
    by (rule map_update)
  also have "\<dots> = map reveal (children D)" using c' i by (simp add: list_update_same_conv)
  finally have m: "map reveal ((children D)[i := ?c']) = map reveal (children D)" .
  show ?case
  proof (cases "isEllipsis D")
    case True
    then show ?thesis using i by (cases D) simp
  next
    case False
    have "concat (map reveal (children (updateAt f D (i # rest)))) =
          concat (map reveal (children D))"
      using updateAt_children [OF i, of f rest] m by simp
    then show ?thesis
      using reveal_children [OF False] updateAt_children [OF i, of f rest]
        updateAt_more [OF i, of f rest] by simp
  qed
qed

lemma butlast_real_cong:
  assumes "map isEllipsis xs = map isEllipsis ys"
  shows "(\<forall>c \<in> set (butlast xs). \<not> isEllipsis c) = (\<forall>c \<in> set (butlast ys). \<not> isEllipsis c)"
proof -
  have "map isEllipsis (butlast xs) = map isEllipsis (butlast ys)"
    using assms by (simp add: map_butlast)
  then have "set (map isEllipsis (butlast xs)) = set (map isEllipsis (butlast ys))" by simp
  then show ?thesis by (auto simp: image_iff)
qed

lemma updateAt_display:
  "displayTree D \<Longrightarrow> nodeAt D pos = Some M \<Longrightarrow> displayTree (f M) \<Longrightarrow> sameFields (f M) M \<Longrightarrow>
   displayTree (updateAt f D pos) \<and> sameFields (updateAt f D pos) D"
proof (induction pos arbitrary: D)
  case Nil
  then show ?case by simp
next
  case (Cons i rest)
  define cs where "cs = children D"
  have i: "i < length cs" and sub: "nodeAt (cs ! i) rest = Some M"
    using Cons.prems(2) by (auto simp: cs_def split: if_splits)
  have real: "\<not> isEllipsis D"
    using ellipsis_no_children [OF Cons.prems(1)] i by (auto simp: cs_def)
  have ci: "cs ! i \<in> set cs" using i by simp
  have dk: "displayTree (cs ! i)" "kidLink (path D) (cs ! i)"
    using display_kid [OF Cons.prems(1) real] ci by (simp_all add: cs_def)
  define c' where "c' = updateAt f (cs ! i) rest"
  have c': "displayTree c'" "sameFields c' (cs ! i)"
    using Cons.IH [OF dk(1) sub Cons.prems(3,4)] by (simp_all add: c'_def)
  define D' where "D' = updateAt f D (i # rest)"
  have kids: "children D' = cs[i := c']" and sf: "sameFields D' D"
    using updateAt_children [of i D f rest] i by (simp_all add: cs_def c'_def D'_def)
  have link: "kidLink (path D) c'"
    using kidLink_fields [of c' "cs ! i" "path D"] c'(2) dk(2) by (simp add: sameFields_def)
  have each: "displayTree c \<and> kidLink (path D) c" if "c \<in> set (cs[i := c'])" for c
  proof -
    have "c = c' \<or> c \<in> set cs" using that set_update_subset_insert [of cs i c'] by auto
    then show ?thesis using c'(1) link display_kid [OF Cons.prems(1) real] by (auto simp: cs_def)
  qed
  have "map isEllipsis (cs[i := c']) = (map isEllipsis cs)[i := isEllipsis c']"
    by (rule map_update)
  also have "\<dots> = map isEllipsis cs"
    using c'(2) i by (simp add: list_update_same_conv sameFields_def)
  finally have bl: "\<forall>c \<in> set (butlast (cs[i := c'])). \<not> isEllipsis c"
    using butlast_real_cong [of "cs[i := c']" cs] display_butlast [OF Cons.prems(1) real]
    by (simp add: cs_def)
  let ?g = "\<lambda>c. if isEllipsis c then map name (hiddenChildren c) else [name c]"
  have "map ?g (cs[i := c']) = (map ?g cs)[i := ?g c']" by (rule map_update)
  also have "\<dots> = map ?g cs" using c'(2) i by (simp add: list_update_same_conv sameFields_def)
  finally have kn: "kidNames (cs[i := c']) = kidNames cs" by (simp add: kidNames_def)
  have dn: "distinct (kidNames (cs[i := c']))"
    using kn display_distinct [OF Cons.prems(1) real] by (simp add: cs_def)
  have "displayTree D'"
  proof (cases D')
    case (Node nm u p ks s ie hs pp bs)
    have "\<not> ie" "p = path D" "ks = cs[i := c']"
      using sf kids real Node by (simp_all add: sameFields_def)
    then show ?thesis using Node each bl dn by simp
  qed
  then show ?case using sf by (simp add: D'_def)
qed

lemma sum_list_update_less:
  fixes xs :: "nat list"
  assumes "i < length xs" "x < xs ! i"
  shows "sum_list (xs[i := x]) < sum_list xs"
proof -
  have "xs ! i \<in> set xs" using assms(1) by simp
  then have "xs ! i \<le> sum_list xs" by (simp add: member_le_sum_list)
  then show ?thesis using assms by (simp add: sum_list_update)
qed

lemma weight_real: "\<not> isEllipsis D \<Longrightarrow> hiddenWeight D = sum_list (map hiddenWeight (children D))"
  by (cases D) simp

lemma updateAt_weight:
  "displayTree D \<Longrightarrow> nodeAt D pos = Some M \<Longrightarrow> hiddenWeight (f M) < hiddenWeight M \<Longrightarrow>
   hiddenWeight (updateAt f D pos) < hiddenWeight D"
proof (induction pos arbitrary: D)
  case Nil
  then show ?case by simp
next
  case (Cons i rest)
  define cs where "cs = children D"
  have i: "i < length cs" and sub: "nodeAt (cs ! i) rest = Some M"
    using Cons.prems(2) by (auto simp: cs_def split: if_splits)
  have real: "\<not> isEllipsis D"
    using ellipsis_no_children [OF Cons.prems(1)] i by (auto simp: cs_def)
  have ci: "cs ! i \<in> set cs" using i by simp
  have dk: "displayTree (cs ! i)"
    using display_kid [OF Cons.prems(1) real] ci by (simp_all add: cs_def)
  define c' where "c' = updateAt f (cs ! i) rest"
  have less: "hiddenWeight c' < hiddenWeight (cs ! i)"
    using Cons.IH [OF dk sub Cons.prems(3)] by (simp add: c'_def)
  define D' where "D' = updateAt f D (i # rest)"
  have kids: "children D' = cs[i := c']" and sf: "sameFields D' D"
    using updateAt_children [of i D f rest] i by (simp_all add: cs_def c'_def D'_def)
  have real': "\<not> isEllipsis D'" using sf real by (simp add: sameFields_def)
  have "map hiddenWeight (cs[i := c']) = (map hiddenWeight cs)[i := hiddenWeight c']"
    by (rule map_update)
  then have "sum_list (map hiddenWeight (cs[i := c'])) < sum_list (map hiddenWeight cs)"
    using sum_list_update_less [of i "map hiddenWeight cs" "hiddenWeight c'"] i less by simp
  then show ?case
    using weight_real [OF real] weight_real [OF real'] kids by (simp add: cs_def D'_def)
qed

lemma removeFirstEllipsis_last:
  "\<forall>c \<in> set pre. \<not> isEllipsis c \<Longrightarrow> isEllipsis e \<Longrightarrow> removeFirstEllipsis (pre @ [e]) = pre"
  by (induction pre) simp_all

lemma batchSizeOf_pos: "0 < batchSizeOf e"
  by (simp add: batchSizeOf_def)

lemma display_ellipsis:
  "displayTree e \<Longrightarrow> isEllipsis e \<Longrightarrow>
   hiddenChildren e \<noteq> []
   \<and> (\<forall>h \<in> set (hiddenChildren e). \<not> isEllipsis h \<and> small h \<and> displayTree h)"
  by (cases e) simp

lemma reveal_ellipsis: "isEllipsis e \<Longrightarrow> reveal e = concat (map reveal (hiddenChildren e))"
  by (cases e) simp

lemma weight_ellipsis:
  "isEllipsis e \<Longrightarrow> hiddenWeight e = sum_list (map (\<lambda>h. 1 + hiddenWeight h) (hiddenChildren e))"
  by (cases e) simp

lemma setChildren_fields:
  "children (setChildren cs' t) = cs' \<and> sameFields (setChildren cs' t) t
   \<and> url (setChildren cs' t) = url t \<and> expandBatchSize (setChildren cs' t) = expandBatchSize t"
  by (cases t) (simp add: setChildren_def sameFields_def)

lemma display_intro:
  assumes "\<not> isEllipsis N"
    and "\<forall>c \<in> set (children N). displayTree c \<and> kidLink (path N) c"
    and "\<forall>c \<in> set (butlast (children N)). \<not> isEllipsis c"
    and "distinct (kidNames (children N))"
  shows "displayTree N"
  using assms by (cases N) simp

lemma sum_take_drop:
  fixes g :: "node \<Rightarrow> nat"
  shows "sum_list (map g (take b hs)) + sum_list (map g (drop b hs)) = sum_list (map g hs)"
  by (metis append_take_drop_id map_append sum_list_append)

lemma sum_succ:
  fixes g :: "node \<Rightarrow> nat"
  shows "sum_list (map (\<lambda>h. 1 + g h) xs) = length xs + sum_list (map g xs)"
  by (induction xs) simp_all

lemma sum_succ_less:
  fixes g :: "node \<Rightarrow> nat"
  shows "xs \<noteq> [] \<Longrightarrow> sum_list (map g xs) < sum_list (map (\<lambda>h. 1 + g h) xs)"
  using sum_succ [of g xs] by (cases xs) simp_all

lemma expandStep_facts:
  assumes D: "displayTree D" "\<not> isEllipsis D"
    and e: "nodeAt D pos = Some e" "isEllipsis e"
  shows "displayTree (expandStep shots D pos) \<and> \<not> isEllipsis (expandStep shots D pos)
         \<and> reveal (expandStep shots D pos) = reveal D
         \<and> hiddenWeight (expandStep shots D pos) < hiddenWeight D"
proof -
  define hs where "hs = hiddenChildren e"
  define b where "b = batchSizeOf e"
  have de: "displayTree e" using nodeAt_display [OF D(1) e(1)] .
  have hs: "hs \<noteq> []" "\<And>h. h \<in> set hs \<Longrightarrow> \<not> isEllipsis h \<and> small h \<and> displayTree h"
    using display_ellipsis [OF de e(2)] by (simp_all add: hs_def)
  from ellipsis_owner [OF D e]
  obtain ppos M pre where o: "nodeAt D ppos = Some M" "\<not> isEllipsis M" "children M = pre @ [e]"
    "\<forall>c \<in> set pre. \<not> isEllipsis c" "kidLink (path M) e" by blast
  define pM where "pM = path M"
  have pe: "parentPath e = Some pM" and hk: "\<And>h. h \<in> set hs \<Longrightarrow> childOf pM h"
    using o(5) e(2) by (simp_all add: kidLink_def pM_def hs_def)
  have found: "findNodeByPath D pM = Some ppos"
    using find_owner [OF D o(1,2)] by (simp add: pM_def)
  define new where "new = map (revealed shots) (take b hs)"
  define tail where "tail = (if drop b hs \<noteq> [] then [ellipsisNode pM (drop b hs)] else [])"
  define f where "f = (\<lambda>parent. setChildren (removeFirstEllipsis (children parent) @ new @ tail) parent)"
  have rv: "revealed shots = (\<lambda>x. collapseTree 5 (attachScreenshotsToNode shots x))"
    by (rule ext) (simp add: revealed_def)
  have step: "expandStep shots D pos = updateAt f D ppos"
    using e(1) hs(1) pe found
    by (simp add: expandStep_def performExpand_def hs_def [symmetric] b_def [symmetric]
        f_def new_def tail_def attachScreenshotsToNodes_def rv comp_def)
  have fM: "f M = setChildren (pre @ new @ tail) M"
    using removeFirstEllipsis_last [OF o(4) e(2)] o(3) by (simp add: f_def)
  have kids: "children (f M) = pre @ new @ tail" and sf: "sameFields (f M) M"
    and more: "url (f M) = url M" "expandBatchSize (f M) = expandBatchSize M"
    using setChildren_fields [of "pre @ new @ tail" M] fM by simp_all
  have dM: "displayTree M" using nodeAt_display [OF D(1) o(1)] .
  have tk: "\<And>h. h \<in> set (take b hs) \<Longrightarrow> h \<in> set hs" by (rule in_set_takeD)
  have dr: "\<And>h. h \<in> set (drop b hs) \<Longrightarrow> h \<in> set hs" by (rule in_set_dropD)
  have newf: "displayTree n \<and> \<not> isEllipsis n \<and> kidLink pM n" if "n \<in> set new" for n
  proof -
    from that obtain h where h: "h \<in> set (take b hs)" "n = revealed shots h"
      by (auto simp: new_def)
    have hh: "\<not> isEllipsis h" "small h" "displayTree h" "childOf pM h"
      using hs(2) [OF tk [OF h(1)]] hk [OF tk [OF h(1)]] by simp_all
    show ?thesis using revealed_facts [OF hh(2,3), of shots] hh(1,4) h(2)
      by (simp add: kidLink_def childOf_def)
  qed
  have tailf: "displayTree c \<and> kidLink pM c" if "c \<in> set tail" for c
  proof -
    have ne: "drop b hs \<noteq> []" and c: "c = ellipsisNode pM (drop b hs)"
      using that by (simp_all add: tail_def split: if_splits)
    show ?thesis using ne hs(2) hk dr by (simp add: c ellipsisNode_def kidLink_def)
  qed
  have pref: "displayTree c \<and> kidLink pM c" if "c \<in> set pre" for c
    using display_kid [OF dM o(2), of c] o(3) that by (simp add: pM_def)
  \<comment> \<open>the revealed lists agree\<close>
  have rnew: "concat (map reveal new) = concat (map reveal (take b hs))"
  proof -
    have "map reveal new = map reveal (take b hs)"
      using revealed_facts hs(2) tk by (simp add: new_def)
    then show ?thesis by (rule arg_cong)
  qed
  have rtail: "concat (map reveal tail) = concat (map reveal (drop b hs))"
    by (simp add: tail_def ellipsisNode_def)
  have "concat (map reveal (take b hs)) @ concat (map reveal (drop b hs)) = concat (map reveal hs)"
    by (metis append_take_drop_id concat_append map_append)
  then have rk: "concat (map reveal (children (f M))) = concat (map reveal (children M))"
    using kids o(3) rnew rtail reveal_ellipsis [OF e(2)] by (simp add: hs_def)
  have r1: "reveal (f M) = reveal M"
    using reveal_children [OF o(2) sf more rk] .
  \<comment> \<open>the display invariant\<close>
  have realfM: "\<not> isEllipsis (f M)" and pathfM: "path (f M) = pM"
    using sf o(2) by (simp_all add: sameFields_def pM_def)
  have all: "\<forall>c \<in> set (children (f M)). displayTree c \<and> kidLink (path (f M)) c"
    using kids pref newf tailf pathfM by auto
  have realkids: "\<forall>c \<in> set (pre @ new). \<not> isEllipsis c" using o(4) newf by auto
  have bl: "\<forall>c \<in> set (butlast (children (f M))). \<not> isEllipsis c"
  proof (cases "tail = []")
    case True
    then show ?thesis using kids realkids by (auto dest: in_set_butlastD)
  next
    case False
    then obtain x where "tail = [x]" by (auto simp: tail_def split: if_splits)
    then have "butlast (children (f M)) = pre @ new"
      using kids by (simp add: butlast_append)
    then show ?thesis using realkids by simp
  qed
  have knew: "kidNames new = map name (take b hs)"
  proof -
    have "\<forall>c \<in> set new. \<not> isEllipsis c" using newf by blast
    from kidNames_real [OF this] have "kidNames new = map name new" .
    also have "\<dots> = map name (take b hs)"
      using revealed_facts hs(2) tk by (simp add: new_def)
    finally show ?thesis .
  qed
  have ktail: "kidNames tail = map name (drop b hs)"
    by (simp add: tail_def kidNames_ellipsis) (simp add: kidNames_def)
  have "kidNames (children (f M)) = kidNames pre @ map name (take b hs) @ map name (drop b hs)"
    using kids knew ktail by (simp add: kidNames_append)
  also have "\<dots> = kidNames pre @ map name hs"
    by (metis append_take_drop_id map_append)
  also have "\<dots> = kidNames (children M)"
    using o(3) e(2) by (simp add: kidNames_append kidNames_def hs_def)
  finally have dn: "distinct (kidNames (children (f M)))"
    using display_distinct [OF dM o(2)] by simp
  have d1: "displayTree (f M)" using display_intro [OF realfM all bl dn] .
  \<comment> \<open>the weight\<close>
  have wnew: "sum_list (map hiddenWeight new) = sum_list (map hiddenWeight (take b hs))"
  proof -
    have "map hiddenWeight new = map hiddenWeight (take b hs)"
      using revealed_facts hs(2) tk by (simp add: new_def)
    then show ?thesis by (rule arg_cong)
  qed
  have wtail: "sum_list (map hiddenWeight tail) \<le>
               sum_list (map (\<lambda>h. 1 + hiddenWeight h) (drop b hs))"
    by (simp add: tail_def ellipsisNode_def)
  have tne: "take b hs \<noteq> []" using hs(1) batchSizeOf_pos [of e] by (simp add: b_def)
  have "sum_list (map hiddenWeight (take b hs)) < sum_list (map (\<lambda>h. 1 + hiddenWeight h) (take b hs))"
    using tne by (rule sum_succ_less)
  then have "sum_list (map hiddenWeight new) + sum_list (map hiddenWeight tail)
             < sum_list (map (\<lambda>h. 1 + hiddenWeight h) (take b hs))
               + sum_list (map (\<lambda>h. 1 + hiddenWeight h) (drop b hs))"
    using wnew wtail by simp
  also have "\<dots> = sum_list (map (\<lambda>h. 1 + hiddenWeight h) hs)" by (rule sum_take_drop)
  finally have "sum_list (map hiddenWeight (children (f M))) < sum_list (map hiddenWeight (children M))"
    using kids o(3) weight_ellipsis [OF e(2)] by (simp add: hs_def)
  then have w1: "hiddenWeight (f M) < hiddenWeight M"
    using weight_real [OF o(2)] weight_real [OF realfM] by simp
  \<comment> \<open>lifting to the whole tree\<close>
  have "displayTree (updateAt f D ppos) \<and> sameFields (updateAt f D ppos) D"
    using updateAt_display [of D ppos M f] D(1) o(1) d1 sf by blast
  moreover have "reveal (updateAt f D ppos) = reveal D"
    using updateAt_reveal [of D ppos M f] o(1) r1 by blast
  moreover have "hiddenWeight (updateAt f D ppos) < hiddenWeight D"
    using updateAt_weight [of D ppos M f] D(1) o(1) w1 by blast
  ultimately show ?thesis using step D(2) by (simp add: sameFields_def)
qed

lemma collectUrlsForCapture_Nil: "collectUrlsForCapture [] n = []"
  by (simp add: collectUrlsForCapture_def numeral_3_eq_3)

lemma expandStep_sync:
  assumes "\<not> isExpanding pg" "nodeAt (currentTreeData pg) pos = Some e" "newUrlsOf pg e = []"
  shows "currentTreeData (handleExpandClick pg pos) = expandStep Map.empty (currentTreeData pg) pos"
  using assms by (simp add: handleExpandClick_def expandStep_def newUrlsOf_def Let_def)

lemma expandStep_async:
  assumes "\<not> isExpanding pg" "nodeAt (currentTreeData pg) pos = Some e" "newUrlsOf pg e \<noteq> []"
  shows "currentTreeData (handleExpandComplete (handleExpandClick pg pos) screenshots (parentPath e))
         = expandStep (screenshotMapOf screenshots) (currentTreeData pg) pos"
proof -
  have "hiddenChildren e \<noteq> []"
    using assms(3) by (auto simp: newUrlsOf_def collectUrlsForCapture_Nil)
  then show ?thesis using assms
    by (simp add: handleExpandClick_def handleExpandComplete_def expandStep_def newUrlsOf_def
        Let_def)
qed

lemma firstEllipsis_Some:
  "firstEllipsis D = Some pos \<Longrightarrow> \<exists>e. nodeAt D pos = Some e \<and> isEllipsis e"
proof (induction D arbitrary: pos)
  case (Node nm u p cs s ie hs pp bs)
  show ?case
  proof (cases ie)
    case True
    then show ?thesis using Node.prems by simp
  next
    case False
    then have "firstFound 0 (map firstEllipsis cs) = Some pos" using Node.prems by simp
    from firstFound_Some [OF this]
    obtain k r where k: "k < length cs" "firstEllipsis (cs ! k) = Some r" "pos = k # r"
      by auto
    from Node.IH(1) [OF _ k(2)] k(1)
    obtain e where "nodeAt (cs ! k) r = Some e" "isEllipsis e" by auto
    then show ?thesis using k by simp
  qed
qed

lemma firstEllipsis_None: "firstEllipsis D = None \<Longrightarrow> \<forall>x \<in> set (nodes D). \<not> isEllipsis x"
proof (induction D)
  case (Node nm u p cs s ie hs pp bs)
  have ie: "\<not> ie" using Node.prems by (auto split: if_splits)
  have "\<forall>c \<in> set cs. firstEllipsis c = None" using Node.prems ie by (simp add: firstFound_None)
  then show ?case using Node.IH(1) ie by auto
qed

lemma expandAll_done:
  assumes pick: "\<forall>D. firstEllipsis D \<noteq> None \<longrightarrow> (\<exists>e. nodeAt D (pick D) = Some e \<and> isEllipsis e)"
  shows "displayTree D \<Longrightarrow> \<not> isEllipsis D \<Longrightarrow> hiddenWeight D \<le> n \<Longrightarrow>
         \<exists>D'. expandAll n pick shots D = Some D' \<and> firstEllipsis D' = None \<and> reveal D' = reveal D"
proof (induction n arbitrary: D)
  case 0
  have "firstEllipsis D = None"
  proof (rule ccontr)
    assume "firstEllipsis D \<noteq> None"
    then obtain e where "nodeAt D (pick D) = Some e" "isEllipsis e" using pick by blast
    from expandStep_facts [OF "0.prems"(1,2) this, of "shots 0"] "0.prems"(3) show False by simp
  qed
  then show ?case by simp
next
  case (Suc n)
  show ?case
  proof (cases "firstEllipsis D = None")
    case True
    then show ?thesis by simp
  next
    case False
    then obtain e where e: "nodeAt D (pick D) = Some e" "isEllipsis e" using pick by blast
    define D1 where "D1 = expandStep (shots n) D (pick D)"
    have f: "displayTree D1" "\<not> isEllipsis D1" "reveal D1 = reveal D"
      "hiddenWeight D1 < hiddenWeight D"
      using expandStep_facts [OF Suc.prems(1,2) e, of "shots n"] by (simp_all add: D1_def)
    have "hiddenWeight D1 \<le> n" using f(4) Suc.prems(3) by simp
    from Suc.IH [OF f(1,2) this]
    obtain D' where "expandAll n pick shots D1 = Some D'" "firstEllipsis D' = None"
      "reveal D' = reveal D1" by blast
    then show ?thesis using False f(3) by (simp add: D1_def)
  qed
qed

text \<open>
  Claim C4. Let \<open>t\<close> be a tree of the data model (\<open>sourceTree\<close>: the TreeNode
  invariant, which \<^verbatim>\<open>buildUrlTree\<close> establishes). Collapse it with
  \<^verbatim>\<open>maxChildren = 5\<close> and expand ellipsis nodes until none is left, in any order of
  clicks and with any screenshots coming back from the captures. The expansions come to
  an end after at most as many rounds as there are hidden nodes, and the tree then
  displayed is \<open>t\<close> up to screenshots: the same paths with the same urls, in the same
  order.
\<close>

theorem collapse_expand_roundtrip:
  assumes src: "sourceTree t"
    and pick: "\<forall>D. firstEllipsis D \<noteq> None \<longrightarrow> (\<exists>e. nodeAt D (pick D) = Some e \<and> isEllipsis e)"
  shows "\<exists>D. expandAll (hiddenWeight (collapseTree 5 t)) pick shots (collapseTree 5 t) = Some D
           \<and> (\<forall>x \<in> set (nodes D). \<not> isEllipsis x)
           \<and> eraseScreenshots D = eraseScreenshots t
           \<and> map (\<lambda>x. (path x, url x)) (nodes D) = map (\<lambda>x. (path x, url x)) (nodes t)"
proof -
  have d: "displayTree (collapseTree 5 t)" "\<not> isEllipsis (collapseTree 5 t)"
    using collapse_display [OF src] by simp_all
  from expandAll_done [OF pick d order_refl, of shots]
  obtain D where D: "expandAll (hiddenWeight (collapseTree 5 t)) pick shots (collapseTree 5 t) = Some D"
    "firstEllipsis D = None" "reveal D = reveal (collapseTree 5 t)" by blast
  have "reveal D = [eraseScreenshots t]"
    using D(3) reveal_collapse [of t] reveal_no_ellipsis [OF sourceTree_no_ellipsis [OF src]]
    by simp
  then have eq: "eraseScreenshots D = eraseScreenshots t"
    using reveal_no_ellipsis [OF D(2)] by simp
  have "map (\<lambda>x. (path x, url x)) (nodes D) = map (\<lambda>x. (path x, url x)) (nodes t)"
    using nodes_erase [of D] nodes_erase [of t] eq by simp
  then show ?thesis using D(1) firstEllipsis_None [OF D(2)] eq by blast
qed

lemma clickFirst_picks:
  "\<forall>D. firstEllipsis D \<noteq> None \<longrightarrow> (\<exists>e. nodeAt D (clickFirst D) = Some e \<and> isEllipsis e)"
  using firstEllipsis_Some by (auto simp: clickFirst_def)

lemma sourceTree_twelve: "sourceTree (site twelvePages)"
  by code_simp

lemma roundtrip_example:
  "expandAll 8 clickFirst (\<lambda>i. Map.empty) (collapseTree 5 (site twelvePages)) = Some (site twelvePages)
   \<and> expandAll 1 clickFirst (\<lambda>i. Map.empty) (collapseTree 5 (site twelvePages)) = None
   \<and> hiddenWeight (collapseTree 5 (site twelvePages)) = 8"
  by code_simp

theorem collapse_expand_roundtrip_witness:
  "sourceTree (site twelvePages)
   \<and> (\<exists>D. expandAll 8 clickFirst (\<lambda>i. Map.empty) (collapseTree 5 (site twelvePages)) = Some D
         \<and> eraseScreenshots D = eraseScreenshots (site twelvePages)
         \<and> map path (nodes D) = ''/'' # map path twelvePages)"
proof -
  from collapse_expand_roundtrip [OF sourceTree_twelve clickFirst_picks, of "\<lambda>i. Map.empty"]
  obtain D where D: "expandAll (hiddenWeight (collapseTree 5 (site twelvePages))) clickFirst
        (\<lambda>i. Map.empty) (collapseTree 5 (site twelvePages)) = Some D"
    "eraseScreenshots D = eraseScreenshots (site twelvePages)" by blast
  have w: "hiddenWeight (collapseTree 5 (site twelvePages)) = 8" using roundtrip_example by simp
  have "D = site twelvePages" using D(1) roundtrip_example unfolding w by simp
  then have paths: "map path (nodes D) = ''/'' # map path twelvePages"
    by (simp add: site_def twelvePages_def sixPages_def page_def)
  have run: "expandAll 8 clickFirst (\<lambda>i. Map.empty) (collapseTree 5 (site twelvePages)) = Some D"
    using D(1) unfolding w .
  show ?thesis
    by (intro conjI exI [of _ D]) (rule sourceTree_twelve run D(2) paths)+
qed

section \<open>Properties of collapsing in place\<close>

text \<open>
  The lemmas below relate the heap to tree values. A tree of objects keeps its value
  when other objects are written (\<open>own_frame\<close>); \<^verbatim>\<open>JSON.parse\<close> builds such a tree
  from new objects only (\<open>alloc_own\<close>); and \<^verbatim>\<open>collapseTree\<close> on the root of such a
  tree returns, writes only objects of the tree, appends the ellipsis objects, and
  leaves a tree of objects whose value is \<open>collapseTree 5\<close> of the value before
  (\<open>collapse_own\<close>).
\<close>

lemma own_bound:
  shows "own h a t F \<Longrightarrow> F \<subseteq> {..<length h} \<and> a \<in> F"
    and "owns h as cs F \<Longrightarrow> F \<subseteq> {..<length h} \<and> set as \<subseteq> F \<and> length as = length cs"
  by (induction rule: own_owns.inducts) auto

lemma own_frame:
  shows "own h a t F \<Longrightarrow> agreeOn F h h' \<Longrightarrow> own h' a t F"
    and "owns h as cs F \<Longrightarrow> agreeOn F h h' \<Longrightarrow> owns h' as cs F"
proof (induction rule: own_owns.inducts)
  case (own_Node a nm u p as s ie bs pp k cs F hs G)
  have "agreeOn F h h'" "agreeOn G h h'"
    using own_Node.prems by (simp_all add: agreeOn_def)
  then have 1: "owns h' as cs F" and 2: "owns h' bs hs G"
    using own_Node.IH by blast+
  have 3: "a < length h'" and 4: "h' ! a = h ! a"
    using own_Node.prems by (simp_all add: agreeOn_def)
  have 5: "a \<notin> F" "a \<notin> G" "F \<inter> G = {}"
    using own_Node.hyps by blast+
  have 6: "h' ! a = \<lparr> o_name = nm, o_url = u, o_path = p, o_children = as, o_screenshot = s,
               o_isEllipsis = ie, o_hiddenChildren = bs, o_parentPath = pp,
               o_expandBatchSize = k \<rparr>"
    using own_Node.hyps own_Node.IH 4 by simp
  show ?case
    by (rule own_owns.own_Node [OF 3 6 1 2 5])
next
  case owns_Nil
  show ?case by (rule own_owns.owns_Nil)
next
  case (owns_Cons a c F as cs G)
  have "agreeOn F h h'" "agreeOn G h h'"
    using owns_Cons.prems by (simp_all add: agreeOn_def)
  then have "own h' a c F" "owns h' as cs G"
    using owns_Cons.IH by blast+
  then show ?case
    using owns_Cons.hyps by (rule own_owns.owns_Cons)
qed

lemma foldr_max_le: "(\<forall>x\<in>set xs. f x \<le> n) \<Longrightarrow> foldr max (map f xs) 0 \<le> (n::nat)"
  by (induction xs) auto

lemma le_foldr_max: "x \<in> set xs \<Longrightarrow> f x \<le> foldr max (map f xs) (0::nat)"
  by (induction xs) (auto simp: max_def)

lemma readAt_levels: "readAt n h a = Some t \<Longrightarrow> levels t \<le> n"
proof (induction n arbitrary: a t)
  case 0
  then show ?case by simp
next
  case (Suc n)
  let ?cs = "map (readAt n h) (o_children (h ! a))"
  from Suc.prems have nn: "None \<notin> set ?cs"
    by (auto simp: Let_def split: if_splits)
  from Suc.prems have t: "children t = map the ?cs"
    by (auto simp: Let_def split: if_splits)
  have "levels c \<le> n" if "c \<in> set (children t)" for c
  proof -
    from that t obtain x where x: "x \<in> set (o_children (h ! a))" and c: "c = the (readAt n h x)"
      by auto
    from nn x have "readAt n h x \<noteq> None"
      by (cases "readAt n h x") (force simp: image_iff)+
    with c have "readAt n h x = Some c" by auto
    then show ?thesis by (rule Suc.IH)
  qed
  then have "foldr max (map levels (children t)) 0 \<le> n"
    by (intro foldr_max_le) simp
  then show ?case by (cases t) simp
qed

lemma agreeOn_append: "F \<subseteq> {..<length h} \<Longrightarrow> agreeOn F h (h @ new)"
  by (auto simp: agreeOn_def nth_append)

lemma range_disjoint:
  fixes a b c :: nat
  assumes "F \<subseteq> {a..<b}" "G \<subseteq> {b..<c}"
  shows "F \<inter> G = {}"
proof -
  have "{a..<b} \<inter> {b..<c} = {}" by auto
  with assms show ?thesis by blast
qed

lemma alloc_own:
  shows "allocTree t h = (a, h1) \<Longrightarrow>
           \<exists>new F. h1 = h @ new \<and> own h1 a t F \<and> F \<subseteq> {length h..<length h1}"
    and "allocList cs h = (as, h1) \<Longrightarrow>
           \<exists>new F. h1 = h @ new \<and> owns h1 as cs F \<and> F \<subseteq> {length h..<length h1}"
proof (induction t h and cs h arbitrary: a h1 and as h1 rule: allocTree_allocList.induct)
  case (1 nm u p cs s ie hs pp bs h)
  obtain cas ha where A: "allocList cs h = (cas, ha)" by (cases "allocList cs h")
  obtain has hb where B: "allocList hs ha = (has, hb)" by (cases "allocList hs ha")
  let ?o = "\<lparr> o_name = nm, o_url = u, o_path = p, o_children = cas, o_screenshot = s,
                  o_isEllipsis = ie, o_hiddenChildren = has, o_parentPath = pp,
                  o_expandBatchSize = bs \<rparr>"
  from "1.prems" A B have a: "a = length hb" and h1: "h1 = hb @ [?o]"
    by simp_all
  from "1.IH"(1) [OF A] obtain n1 F1 where
    ha: "ha = h @ n1" and o1: "owns ha cas cs F1" and f1: "F1 \<subseteq> {length h..<length ha}"
    by blast
  from "1.IH"(2) [OF A [symmetric] refl B] obtain n2 F2 where
    hb: "hb = ha @ n2" and o2: "owns hb has hs F2" and f2: "F2 \<subseteq> {length ha..<length hb}"
    by blast
  have "F1 \<subseteq> {..<length ha}" using f1 by auto
  then have "agreeOn F1 ha (ha @ (n2 @ [?o]))" by (rule agreeOn_append)
  then have g1: "agreeOn F1 ha h1" by (simp add: h1 hb)
  have "F2 \<subseteq> {..<length hb}" using f2 by auto
  then have g2: "agreeOn F2 hb h1" unfolding h1 by (rule agreeOn_append)
  have o1': "owns h1 cas cs F1" using o1 g1 by (rule own_frame(2))
  have o2': "owns h1 has hs F2" using o2 g2 by (rule own_frame(2))
  have l: "length h \<le> length ha" "length ha \<le> length hb"
    by (simp_all add: ha hb)
  have d: "a \<notin> F1" "a \<notin> F2"
    using f1 f2 l by (auto simp: a)
  have d3: "F1 \<inter> F2 = {}" using f1 f2 by (rule range_disjoint)
  have "a < length h1" by (simp add: a h1)
  moreover have "h1 ! a = ?o" by (simp add: a h1)
  ultimately have "own h1 a (Node nm u p cs s ie hs pp bs) (insert a (F1 \<union> F2))"
    using o1' o2' d d3 by (rule own_Node)
  moreover have "insert a (F1 \<union> F2) \<subseteq> {length h..<length h1}"
    using f1 f2 l by (auto simp: a h1)
  moreover have "h1 = h @ (n1 @ n2 @ [?o])" by (simp add: h1 hb ha)
  ultimately show ?case by blast
next
  case (2 h)
  then have "as = []" "h1 = h" by simp_all
  then show ?case by (auto intro: owns_Nil)
next
  case (3 c cs h)
  obtain x ha where A: "allocTree c h = (x, ha)" by (cases "allocTree c h")
  obtain xs hb where B: "allocList cs ha = (xs, hb)" by (cases "allocList cs ha")
  from "3.prems" A B have as: "as = x # xs" and h1: "h1 = hb" by simp_all
  from "3.IH"(1) [OF A] obtain n1 F1 where
    ha: "ha = h @ n1" and o1: "own ha x c F1" and f1: "F1 \<subseteq> {length h..<length ha}"
    by blast
  from "3.IH"(2) [OF A [symmetric] refl B] obtain n2 F2 where
    hb: "hb = ha @ n2" and o2: "owns hb xs cs F2" and f2: "F2 \<subseteq> {length ha..<length hb}"
    by blast
  have "F1 \<subseteq> {..<length ha}" using f1 by auto
  then have "agreeOn F1 ha hb" unfolding hb by (rule agreeOn_append)
  with o1 have o1': "own hb x c F1" by (rule own_frame(1))
  have l: "length h \<le> length ha" "length ha \<le> length hb"
    by (simp_all add: ha hb)
  have "F1 \<inter> F2 = {}" using f1 f2 by (rule range_disjoint)
  with o1' o2 have "owns hb (x # xs) (c # cs) (F1 \<union> F2)" by (rule owns_Cons)
  moreover have "F1 \<union> F2 \<subseteq> {length h..<length hb}" using f1 f2 l by auto
  moreover have "hb = h @ (n1 @ n2)" by (simp add: hb ha)
  ultimately show ?case unfolding as h1 by blast
qed

lemma own_read:
  shows "own h a t F \<Longrightarrow> \<exists>m. \<forall>k\<ge>m. readAt k h a = Some t"
    and "owns h as cs F \<Longrightarrow> \<exists>m. \<forall>k\<ge>m. map (readAt k h) as = map Some cs"
proof (induction rule: own_owns.inducts)
  case (own_Node a nm u p as s ie bs pp k cs F hs G)
  from own_Node.IH obtain m1 m2 where
    m1: "\<forall>k\<ge>m1. map (readAt k h) as = map Some cs" and
    m2: "\<forall>k\<ge>m2. map (readAt k h) bs = map Some hs"
    by blast
  have ha: "a < length h" and hv: "h ! a = \<lparr> o_name = nm, o_url = u, o_path = p, o_children = as, o_screenshot = s,
               o_isEllipsis = ie, o_hiddenChildren = bs, o_parentPath = pp,
               o_expandBatchSize = k \<rparr>"
    using own_Node.hyps own_Node.IH by simp_all
  have "readAt j h a = Some (Node nm u p cs s ie hs pp k)" if "Suc (max m1 m2) \<le> j" for j
  proof -
    from that obtain j' where j: "j = Suc j'" and "m1 \<le> j'" "m2 \<le> j'"
      by (cases j) auto
    with m1 m2 have "map (readAt j' h) as = map Some cs" "map (readAt j' h) bs = map Some hs"
      by blast+
    then show ?thesis
      by (simp add: j ha hv Let_def comp_def image_iff)
  qed
  then show ?case by blast
next
  case owns_Nil
  show ?case by simp
next
  case (owns_Cons a c F as cs G)
  from owns_Cons.IH obtain m1 m2 where
    m1: "\<forall>k\<ge>m1. readAt k h a = Some c" and
    m2: "\<forall>k\<ge>m2. map (readAt k h) as = map Some cs"
    by blast
  have "map (readAt j h) (a # as) = map Some (c # cs)" if "max m1 m2 \<le> j" for j
    using that m1 m2 by simp
  then show ?case by blast
qed

lemma readAt_stable:
  "readAt n h a = Some t \<Longrightarrow> \<forall>b<length h. h' ! b = h ! b \<Longrightarrow> length h \<le> length h' \<Longrightarrow>
   readAt n h' a = Some t"
proof (induction n arbitrary: a t)
  case 0
  then show ?case by simp
next
  case (Suc n)
  from Suc.prems(1) have a: "a < length h"
    by (simp split: if_splits)
  with Suc.prems have a': "a < length h'" and e: "h' ! a = h ! a"
    by simp_all
  from Suc.prems(1) a have nn: "None \<notin> set (map (readAt n h) (o_children (h ! a)))"
    "None \<notin> set (map (readAt n h) (o_hiddenChildren (h ! a)))"
    by (auto simp: Let_def split: if_splits)
  have same: "readAt n h' x = readAt n h x" if "readAt n h x \<noteq> None" for x
  proof -
    from that obtain y where y: "readAt n h x = Some y" by blast
    then have "readAt n h' x = Some y"
      using Suc.prems(2,3) by (rule Suc.IH)
    with y show ?thesis by simp
  qed
  have 1: "map (readAt n h') (o_children (h ! a)) = map (readAt n h) (o_children (h ! a))"
  proof (rule map_cong [OF refl])
    fix x assume "x \<in> set (o_children (h ! a))"
    with nn(1) have "readAt n h x \<noteq> None"
      by (cases "readAt n h x") (force simp: image_iff)+
    then show "readAt n h' x = readAt n h x" by (rule same)
  qed
  have 2: "map (readAt n h') (o_hiddenChildren (h ! a)) = map (readAt n h) (o_hiddenChildren (h ! a))"
  proof (rule map_cong [OF refl])
    fix x assume "x \<in> set (o_hiddenChildren (h ! a))"
    with nn(2) have "readAt n h x \<noteq> None"
      by (cases "readAt n h x") (force simp: image_iff)+
    then show "readAt n h' x = readAt n h x" by (rule same)
  qed
  have "readAt (Suc n) h' a = readAt (Suc n) h a"
    by (simp only: readAt.simps a a' e 1 2)
  with Suc.prems(1) show ?case by simp
qed

lemma owns_split:
  "owns h as cs F \<Longrightarrow>
     \<exists>Fv Fh. owns h (take k as) (take k cs) Fv \<and> owns h (drop k as) (drop k cs) Fh \<and>
             Fv \<inter> Fh = {} \<and> Fv \<union> Fh = F"
proof (induction arbitrary: k rule: own_owns.inducts(2) [where ?P1.0 = "\<lambda>_ _ _. True"])
  case (own_Node a nm u p as s ie bs pp k cs F hs G)
  show ?case by simp
next
  case owns_Nil
  have "owns h [] [] {}" by (rule own_owns.owns_Nil)
  then show ?case by simp
next
  case (owns_Cons a c F as cs G)
  show ?case
  proof (cases k)
    case 0
    have o: "own h a c F" and os: "owns h as cs G" using owns_Cons.hyps by simp_all
    have "F \<inter> G = {}" using owns_Cons.hyps by simp
    with o os have "owns h (a # as) (c # cs) (F \<union> G)"
      by (rule own_owns.owns_Cons)
    moreover have "owns h [] [] {}" by (rule own_owns.owns_Nil)
    ultimately have "owns h [] [] {} \<and> owns h (a # as) (c # cs) (F \<union> G) \<and>
        {} \<inter> (F \<union> G) = {} \<and> {} \<union> (F \<union> G) = F \<union> G"
      by simp
    then show ?thesis unfolding 0 take_0 drop_0 by (intro exI)
  next
    case (Suc j)
    from owns_Cons.IH obtain Fv Fh where
      v: "owns h (take j as) (take j cs) Fv" and hd: "owns h (drop j as) (drop j cs) Fh" and
      d: "Fv \<inter> Fh = {}" and u: "Fv \<union> Fh = G"
      by blast
    have o: "own h a c F" using owns_Cons.hyps by simp
    have "F \<inter> Fv = {}" using owns_Cons.hyps u by blast
    with o v have "owns h (a # take j as) (c # take j cs) (F \<union> Fv)"
      by (rule own_owns.owns_Cons)
    moreover have "(F \<union> Fv) \<inter> Fh = {}" using owns_Cons.hyps u d by blast
    moreover have "(F \<union> Fv) \<union> Fh = F \<union> G" using u by blast
    ultimately have "owns h (a # take j as) (c # take j cs) (F \<union> Fv) \<and>
        owns h (drop j as) (drop j cs) Fh \<and>
        (F \<union> Fv) \<inter> Fh = {} \<and> (F \<union> Fv) \<union> Fh = F \<union> G"
      using hd by simp
    then show ?thesis unfolding Suc take_Suc_Cons drop_Suc_Cons by (intro exI)
  qed
qed

lemma owns_snoc:
  "owns h as cs F \<Longrightarrow> own h e c G \<Longrightarrow> F \<inter> G = {} \<Longrightarrow>
   owns h (as @ [e]) (cs @ [c]) (F \<union> G)"
proof (induction rule: own_owns.inducts(2) [where ?P1.0 = "\<lambda>_ _ _. True"])
  case (own_Node a nm u p as s ie bs pp k cs F hs G)
  show ?case by simp
next
  case owns_Nil
  have "owns h [e] [c] (G \<union> {})"
    using owns_Nil.prems(1) own_owns.owns_Nil by (rule own_owns.owns_Cons) simp
  then show ?case by simp
next
  case (owns_Cons a c' F1 as cs G1)
  have o: "own h a c' F1" using owns_Cons.hyps by simp
  have "G1 \<inter> G = {}" using owns_Cons.prems by blast
  with owns_Cons.IH owns_Cons.prems have t: "owns h (as @ [e]) (cs @ [c]) (G1 \<union> G)" by blast
  have "F1 \<inter> (G1 \<union> G) = {}" using owns_Cons.hyps owns_Cons.prems by blast
  with o t have "owns h (a # (as @ [e])) (c' # (cs @ [c])) (F1 \<union> (G1 \<union> G))"
    by (rule own_owns.owns_Cons)
  then show ?case by (simp add: Un_assoc)
qed

lemma after_refl: "after h F h F"
  by (simp add: after_def)

lemma after_agree:
  assumes "after h0 F h1 F1" "agreeOn G h h0" "F \<inter> G = {}"
  shows "agreeOn G h h1"
  unfolding agreeOn_def
proof
  fix b assume b: "b \<in> G"
  with assms(2) have 1: "b < length h0" "h0 ! b = h ! b" by (simp_all add: agreeOn_def)
  from b assms(3) have "b \<notin> F" by blast
  with assms(1) 1 have "h1 ! b = h0 ! b" "b < length h1" by (simp_all add: after_def)
  with 1 show "b < length h1 \<and> h1 ! b = h ! b" by simp
qed

lemma after_seq:
  assumes 1: "after h0 F h1 F1" and 2: "after h1 G h2 F2"
    and F: "F \<subseteq> {..<length h0}" and G: "G \<subseteq> {..<length h0}"
    and F1: "F1 \<subseteq> {..<length h1}" and d: "F \<inter> G = {}"
  shows "after h0 (F \<union> G) h2 (F1 \<union> F2)" and "F1 \<inter> F2 = {}" and "agreeOn F1 h1 h2"
proof -
  have l: "length h0 \<le> length h1" "length h1 \<le> length h2"
    using 1 2 by (simp_all add: after_def)
  have s1: "F1 \<subseteq> F \<union> {length h0..<length h1}" and s2: "F2 \<subseteq> G \<union> {length h1..<length h2}"
    using 1 2 by (simp_all add: after_def)
  have fr1: "\<And>b. b < length h0 \<Longrightarrow> b \<notin> F \<Longrightarrow> h1 ! b = h0 ! b"
    and fr2: "\<And>b. b < length h1 \<Longrightarrow> b \<notin> G \<Longrightarrow> h2 ! b = h1 ! b"
    using 1 2 by (simp_all add: after_def)
  have nG: "b \<notin> G" if "b \<in> F1" for b
  proof
    assume g: "b \<in> G"
    with G have "b < length h0" by auto
    with s1 that have "b \<in> F" by auto
    with g d show False by blast
  qed
  show "F1 \<inter> F2 = {}"
  proof (rule ccontr)
    assume "F1 \<inter> F2 \<noteq> {}"
    then obtain b where b: "b \<in> F1" "b \<in> F2" by blast
    from b(1) F1 have "b < length h1" by auto
    with b(2) s2 have "b \<in> G" by auto
    with nG [OF b(1)] show False by simp
  qed
  show "agreeOn F1 h1 h2"
    unfolding agreeOn_def
  proof
    fix b assume b: "b \<in> F1"
    with F1 have "b < length h1" by auto
    with fr2 [OF this nG [OF b]] l show "b < length h2 \<and> h2 ! b = h1 ! b" by simp
  qed
  show "after h0 (F \<union> G) h2 (F1 \<union> F2)"
    unfolding after_def
  proof (intro conjI allI impI)
    show "length h0 \<le> length h2" using l by simp
  next
    fix b assume b: "b < length h0" "b \<notin> F \<union> G"
    then have "h2 ! b = h1 ! b" using fr2 [of b] l by simp
    also have "h1 ! b = h0 ! b" using fr1 [of b] b by simp
    finally show "h2 ! b = h0 ! b" .
  next
    show "F1 \<union> F2 \<subseteq> F \<union> G \<union> {length h0..<length h2}"
    proof
      fix b assume "b \<in> F1 \<union> F2"
      then consider "b \<in> F1" | "b \<in> F2" by blast
      then show "b \<in> F \<union> G \<union> {length h0..<length h2}"
      proof cases
        case 1
        with s1 have "b \<in> F \<or> (length h0 \<le> b \<and> b < length h1)" by auto
        with l show ?thesis by auto
      next
        case 2
        with s2 have "b \<in> G \<or> (length h1 \<le> b \<and> b < length h2)" by auto
        with l show ?thesis by auto
      qed
    qed
  qed
qed

lemma agree_update:
  assumes "X \<subseteq> {..<length h1}" "a \<notin> X"
  shows "agreeOn X h1 ((h1 @ [x])[a := y])"
  unfolding agreeOn_def
proof
  fix b assume b: "b \<in> X"
  with assms have "b < length h1" "b \<noteq> a" by auto
  then show "b < length ((h1 @ [x])[a := y]) \<and> (h1 @ [x])[a := y] ! b = h1 ! b"
    by (simp add: nth_append)
qed

lemma levels_child:
  "levels (Node nm u p cs s ie hs pp k) \<le> n \<Longrightarrow>
     \<exists>n'. n = Suc n' \<and> (\<forall>c\<in>set cs. levels c \<le> n')"
proof -
  assume a: "levels (Node nm u p cs s ie hs pp k) \<le> n"
  then obtain n' where n: "n = Suc n'" by (cases n) auto
  with a have b: "foldr max (map levels cs) 0 \<le> n'" by simp
  have "levels c \<le> n'" if "c \<in> set cs" for c
    using le_foldr_max [OF that, of levels] b by simp
  with n show ?thesis by blast
qed

lemma collapse_own:
  shows "own h a t F \<Longrightarrow>
           \<forall>n h0. levels t \<le> n \<longrightarrow> agreeOn F h h0 \<longrightarrow>
             (\<exists>h' F'. collapseAt n 5 h0 a = Some h' \<and> own h' a (collapseTree 5 t) F' \<and>
                      after h0 F h' F')"
    and "owns h as cs F \<Longrightarrow>
           \<forall>n h0. (\<forall>c\<in>set cs. levels c \<le> n) \<longrightarrow> agreeOn F h h0 \<longrightarrow>
             (\<exists>h' F'. collapseEach n 5 h0 as = Some h' \<and>
                      owns h' as (map (collapseTree 5) cs) F' \<and> after h0 F h' F')"
proof (induct rule: own_owns.inducts)
  case owns_Nil
  show ?case
  proof (intro allI impI)
    fix n h0
    have "collapseEach n 5 h0 [] = Some h0" by simp
    moreover have "owns h0 [] (map (collapseTree 5) []) {}"
      by (simp add: own_owns.owns_Nil)
    moreover have "after h0 {} h0 {}" by (rule after_refl)
    ultimately show "\<exists>h' F'. collapseEach n 5 h0 [] = Some h' \<and>
        owns h' [] (map (collapseTree 5) []) F' \<and> after h0 {} h' F'"
      by blast
  qed
next
  case (owns_Cons a c F as cs G)
  note oa = owns_Cons(1) and IH1 = owns_Cons(2) and os = owns_Cons(3) and IH2 = owns_Cons(4)
    and d = owns_Cons(5)
  show ?case
  proof (intro allI impI)
    fix n h0
    assume lv: "\<forall>x\<in>set (c # cs). levels x \<le> n" and ag: "agreeOn (F \<union> G) h h0"
    have agF: "agreeOn F h h0" and agG: "agreeOn G h h0"
      using ag by (simp_all add: agreeOn_def)
    from lv have lc: "levels c \<le> n" and lcs: "\<forall>x\<in>set cs. levels x \<le> n" by simp_all
    from IH1 lc agF obtain h1 F1 where
      c1: "collapseAt n 5 h0 a = Some h1" and o1: "own h1 a (collapseTree 5 c) F1" and
      a1: "after h0 F h1 F1"
      by blast
    have agG1: "agreeOn G h h1" using a1 agG d by (rule after_agree)
    from IH2 lcs agG1 obtain h2 F2 where
      c2: "collapseEach n 5 h1 as = Some h2" and
      o2: "owns h2 as (map (collapseTree 5) cs) F2" and a2: "after h1 G h2 F2"
      by blast
    have bF: "F \<subseteq> {..<length h0}" and bG: "G \<subseteq> {..<length h0}"
      using agF agG by (auto simp: agreeOn_def)
    have bF1: "F1 \<subseteq> {..<length h1}" using own_bound(1) [OF o1] by simp
    note sq = after_seq [OF a1 a2 bF bG bF1 d]
    have "own h2 a (collapseTree 5 c) F1" using o1 sq(3) by (rule own_frame(1))
    then have "owns h2 (a # as) (collapseTree 5 c # map (collapseTree 5) cs) (F1 \<union> F2)"
      using o2 sq(2) by (rule own_owns.owns_Cons)
    moreover have "collapseEach n 5 h0 (a # as) = Some h2" by (simp add: c1 c2)
    ultimately show "\<exists>h' F'. collapseEach n 5 h0 (a # as) = Some h' \<and>
        owns h' (a # as) (map (collapseTree 5) (c # cs)) F' \<and> after h0 (F \<union> G) h' F'"
      using sq(1) by auto
  qed
next
  case (own_Node a nm u p as s ie bs pp k cs F hs G)
  note al = own_Node(1) and hv = own_Node(2) and oc = own_Node(3) and IH = own_Node(4)
    and oh = own_Node(5) and aF = own_Node(7) and aG = own_Node(8) and d = own_Node(9)
  let ?t = "Node nm u p cs s ie hs pp k"
  let ?f = "collapseTree 5"
  show ?case
  proof (intro allI impI)
    fix n h0
    assume lv: "levels ?t \<le> n" and ag: "agreeOn (insert a (F \<union> G)) h h0"
    from levels_child [OF lv] obtain n' where n: "n = Suc n'" and lcs: "\<forall>c\<in>set cs. levels c \<le> n'"
      by blast
    have agF: "agreeOn F h h0" and agG: "agreeOn G h h0" and a0: "a < length h0"
      and v0: "h0 ! a = h ! a"
      using ag by (simp_all add: agreeOn_def)
    have bF: "F \<subseteq> {..<length h0}" and bG: "G \<subseteq> {..<length h0}"
      using agF agG by (auto simp: agreeOn_def)
    have len: "length as = length cs" using own_bound(2) [OF oc] by simp
    have ch0: "o_children (h0 ! a) = as" by (simp add: v0 hv)
    have own0: "own h a ?t (insert a (F \<union> G))"
      using al hv oc oh aF aG d by (rule own_owns.own_Node)
    show "\<exists>h' F'. collapseAt n 5 h0 a = Some h' \<and> own h' a (?f ?t) F' \<and>
            after h0 (insert a (F \<union> G)) h' F'"
    proof (cases "cs = []")
      case True
      with len have "as = []" by simp
      then have "collapseAt n 5 h0 a = Some h0" by (simp add: n a0 ch0)
      moreover have "own h0 a (?f ?t) (insert a (F \<union> G))"
        using own_frame(1) [OF own0 ag] True by simp
      moreover have "after h0 (insert a (F \<union> G)) h0 (insert a (F \<union> G))" by (rule after_refl)
      ultimately show ?thesis by blast
    next
      case False
      with len have asne: "as \<noteq> []" by auto
      from IH lcs agF obtain h1 F1 where
        c1: "collapseEach n' 5 h0 as = Some h1" and
        o1: "owns h1 as (map ?f cs) F1" and a1: "after h0 F h1 F1"
        by blast
      have l1: "length h0 \<le> length h1" and s1: "F1 \<subseteq> F \<union> {length h0..<length h1}"
        and fr1: "\<And>b. b < length h0 \<Longrightarrow> b \<notin> F \<Longrightarrow> h1 ! b = h0 ! b"
        using a1 by (simp_all add: after_def)
      have a1l: "a < length h1" using a0 l1 by simp
      have v1: "h1 ! a = h ! a" using fr1 [OF a0 aF] v0 by simp
      have agG1: "agreeOn G h h1" using a1 agG d by (rule after_agree)
      have oh1: "owns h1 bs hs G" using oh agG1 by (rule own_frame(2))
      have bF1: "F1 \<subseteq> {..<length h1}" using own_bound(2) [OF o1] by simp
      have aF1: "a \<notin> F1" using s1 aF a0 by auto
      have dG1: "F1 \<inter> G = {}"
      proof (rule ccontr)
        assume "F1 \<inter> G \<noteq> {}"
        then obtain b where b: "b \<in> F1" "b \<in> G" by blast
        from b(2) bG have "b < length h0" by auto
        with b(1) s1 have "b \<in> F" by auto
        with b(2) d show False by blast
      qed
      show ?thesis
      proof (cases "5 < length cs")
        case False
        have "(h1 ! a)\<lparr> o_children := as \<rparr> = h1 ! a" by (simp add: v1 hv)
        then have "h1[a := (h1 ! a)\<lparr> o_children := as \<rparr>] = h1" by simp
        then have "collapseAt n 5 h0 a = Some h1"
          using False asne len by (simp add: n a0 ch0 c1)
        moreover have "own h1 a (Node nm u p (map ?f cs) s ie hs pp k) (insert a (F1 \<union> G))"
          using a1l _ o1 oh1 aF1 aG dG1 by (rule own_owns.own_Node) (simp add: v1 hv)
        then have "own h1 a (?f ?t) (insert a (F1 \<union> G))"
          using False by (simp add: collapseTree_5 del: collapseTree.simps)
        moreover have "after h0 (insert a (F \<union> G)) h1 (insert a (F1 \<union> G))"
          unfolding after_def using l1 s1 fr1 by auto
        ultimately show ?thesis by blast
      next
        case True
        let ?e = "length h1"
        let ?x = "ellipsisObj p (drop 4 as)"
        let ?y = "(h1 ! a)\<lparr> o_children := take 4 as @ [?e] \<rparr>"
        let ?h2 = "(h1 @ [?x])[a := ?y]"
        have "collapseAt n 5 h0 a = Some ?h2"
          using True asne len
          by (simp add: n a0 ch0 c1 Let_def slice_0_4 slice_from_4 v1 hv)
        moreover
        from owns_split [OF o1, of 4] obtain Fv Fh where
          ov: "owns h1 (take 4 as) (take 4 (map ?f cs)) Fv" and
          ohd: "owns h1 (drop 4 as) (drop 4 (map ?f cs)) Fh" and
          dv: "Fv \<inter> Fh = {}" and uv: "Fv \<union> Fh = F1"
          by blast
        have sub: "Fv \<subseteq> F1" "Fh \<subseteq> F1" using uv by auto
        have agv: "agreeOn Fv h1 ?h2" and agh: "agreeOn Fh h1 ?h2" and agg: "agreeOn G h1 ?h2"
        proof -
          show "agreeOn Fv h1 ?h2" using sub bF1 aF1 by (intro agree_update) auto
          show "agreeOn Fh h1 ?h2" using sub bF1 aF1 by (intro agree_update) auto
          show "agreeOn G h1 ?h2" using bG l1 aG by (intro agree_update) auto
        qed
        have ov2: "owns ?h2 (take 4 as) (take 4 (map ?f cs)) Fv"
          using ov agv by (rule own_frame(2))
        have oh2: "owns ?h2 (drop 4 as) (drop 4 (map ?f cs)) Fh"
          using ohd agh by (rule own_frame(2))
        have og2: "owns ?h2 bs hs G" using oh1 agg by (rule own_frame(2))
        have ne: "a \<noteq> ?e" using a1l by simp
        have eFh: "?e \<notin> Fh" "?e \<notin> Fv" "?e \<notin> G" "?e \<notin> F1"
          using sub bF1 bG l1 by auto
        have el: "?e < length ?h2" by simp
        have ev: "?h2 ! ?e = ?x" using ne by (simp add: nth_append)
        have "own ?h2 ?e (ellipsisNode p (drop 4 (map ?f cs))) (insert ?e ({} \<union> Fh))"
          unfolding ellipsisNode_def
        proof (rule own_owns.own_Node [OF el _ own_owns.owns_Nil oh2])
          show "?h2 ! ?e = \<lparr>o_name = ''... +'' @ string_of_nat (length (drop 4 (map ?f cs))) @ '' more'',
              o_url = None, o_path = p @ ''_more/'', o_children = [], o_screenshot = None,
              o_isEllipsis = True, o_hiddenChildren = drop 4 as, o_parentPath = Some p,
              o_expandBatchSize = 5\<rparr>"
            unfolding ev by (simp add: ellipsisObj_def len)
        qed (use eFh in simp_all)
        then have oe: "own ?h2 ?e (ellipsisNode p (drop 4 (map ?f cs))) (insert ?e Fh)" by simp
        have "Fv \<inter> insert ?e Fh = {}" using dv eFh by auto
        with ov2 oe have ovis: "owns ?h2 (take 4 as @ [?e])
            (take 4 (map ?f cs) @ [ellipsisNode p (drop 4 (map ?f cs))]) (Fv \<union> insert ?e Fh)"
          by (rule owns_snoc)
        let ?F' = "insert a ((Fv \<union> insert ?e Fh) \<union> G)"
        have al2: "a < length ?h2" using a1l by simp
        have av2: "?h2 ! a = \<lparr> o_name = nm, o_url = u, o_path = p, o_children = take 4 as @ [?e],
               o_screenshot = s, o_isEllipsis = ie, o_hiddenChildren = bs, o_parentPath = pp,
               o_expandBatchSize = k \<rparr>"
          using a1l by (simp add: v1 hv)
        have n1: "a \<notin> Fv \<union> insert ?e Fh" using aF1 sub ne by auto
        have n2: "(Fv \<union> insert ?e Fh) \<inter> G = {}" using dG1 sub eFh by auto
        have "own ?h2 a (Node nm u p (take 4 (map ?f cs) @ [ellipsisNode p (drop 4 (map ?f cs))])
                 s ie hs pp k) ?F'"
          using al2 av2 ovis og2 n1 aG n2 by (rule own_owns.own_Node)
        then have "own ?h2 a (?f ?t) ?F'"
          using True by (simp add: collapseTree_5 take_map drop_map del: collapseTree.simps)
        moreover have "after h0 (insert a (F \<union> G)) ?h2 ?F'"
          unfolding after_def
        proof (intro conjI allI impI)
          show "length h0 \<le> length ?h2" using l1 by simp
        next
          fix b assume b: "b < length h0" "b \<notin> insert a (F \<union> G)"
          then have "?h2 ! b = h1 ! b" using l1 by (simp add: nth_append)
          also have "h1 ! b = h0 ! b" using fr1 [of b] b by simp
          finally show "?h2 ! b = h0 ! b" .
        next
          have "Fv \<union> Fh \<subseteq> F \<union> {length h0..<length h1}" using s1 uv by simp
          then show "?F' \<subseteq> insert a (F \<union> G) \<union> {length h0..<length ?h2}"
            using l1 by auto
        qed
        ultimately show ?thesis by blast
      qed
    qed
  qed
qed

lemma renderTree_own:
  assumes r: "readAt n h dat = Some t"
  shows "\<exists>h' cur F. renderTree n h dat = Some (h', cur) \<and> own h' cur (collapseTree 5 t) F \<and>
           length h \<le> cur \<and> length h \<le> length h' \<and> (\<forall>b<length h. h' ! b = h ! b)"
proof -
  obtain a h1 where al: "allocTree t h = (a, h1)" by (cases "allocTree t h")
  from alloc_own(1) [OF al] obtain new F where
    h1: "h1 = h @ new" and o: "own h1 a t F" and f: "F \<subseteq> {length h..<length h1}"
    by blast
  have lv: "levels t \<le> n" using r by (rule readAt_levels)
  have ag: "agreeOn F h1 h1" using f by (auto simp: agreeOn_def)
  from collapse_own(1) [OF o] lv ag obtain h2 F' where
    c: "collapseAt n 5 h1 a = Some h2" and o2: "own h2 a (collapseTree 5 t) F'" and
    af: "after h1 F h2 F'"
    by blast
  have rt: "renderTree n h dat = Some (h2, a)"
    by (simp add: renderTree_def r al c)
  have l: "length h \<le> length h1" "length h1 \<le> length h2"
    using af by (simp_all add: h1 after_def)
  have fr: "h2 ! b = h ! b" if "b < length h" for b
  proof -
    from that f have "b \<notin> F" by auto
    moreover from that l have "b < length h1" by simp
    ultimately have "h2 ! b = h1 ! b" using af by (simp add: after_def)
    also have "h1 ! b = h ! b" using that by (simp add: h1 nth_append)
    finally show ?thesis .
  qed
  have "a \<in> F" using own_bound(1) [OF o] by simp
  with f have "length h \<le> a" by auto
  with rt o2 l fr show ?thesis by auto
qed

lemma readAt_sixHeap: "readAt 3 sixHeap 6 = Some (site sixPages)"
  by code_simp

lemma collapseAt_sixHeap:
  "map_option (\<lambda>h'. readAt 3 h' 6) (collapseAt 3 5 sixHeap 6) =
     Some (Some (collapseTree 5 (site sixPages)))"
  by code_simp

lemma collapseTree_sixPages: "collapseTree 5 (site sixPages) \<noteq> site sixPages"
  by code_simp

text \<open>
  Claim C6, as stated of \<^verbatim>\<open>collapseTree\<close>, fails on the code: the function writes
  the object it is given. On the heap that holds the six-page site with its root at
  address 6, the call \<^verbatim>\<open>collapseTree(root, 5)\<close> returns, and afterwards the tree
  read from address 6 is the collapsed tree, not the tree that was there before.
\<close>

theorem collapseTree_mutates_argument:
  "readAt 3 sixHeap 6 = Some (site sixPages) \<and>
   (\<exists>h'. collapseAt 3 5 sixHeap 6 = Some h' \<and>
      readAt 3 h' 6 = Some (collapseTree 5 (site sixPages)) \<and>
      readAt 3 h' 6 \<noteq> readAt 3 sixHeap 6)"
proof -
  from collapseAt_sixHeap obtain h' where
    1: "collapseAt 3 5 sixHeap 6 = Some h'" and
    2: "readAt 3 h' 6 = Some (collapseTree 5 (site sixPages))"
    by (cases "collapseAt 3 5 sixHeap 6") auto
  from 2 collapseTree_sixPages have "readAt 3 h' 6 \<noteq> readAt 3 sixHeap 6"
    by (simp add: readAt_sixHeap)
  with 1 2 readAt_sixHeap show ?thesis by blast
qed

text \<open>
  Claim C6, amended to what the code does. \<^verbatim>\<open>collapseTree\<close> rewrites the tree it is
  given, and \<^verbatim>\<open>renderTree\<close> gives it a deep copy (the JSON round trip) of the
  dataset tree. For every heap \<open>h\<close> and every object \<open>dat\<close> from which a tree \<open>t\<close> can
  be read (nesting depth at most \<open>n\<close>), \<^verbatim>\<open>renderTree(dat)\<close> returns; the display
  tree \<^verbatim>\<open>currentTreeData\<close> is a new object and reads as \<open>collapseTree 5 t\<close>; no
  object that existed before the call is written; and the tree read from \<open>dat\<close> is
  still \<open>t\<close>. (\<^verbatim>\<open>performExpand\<close> calls \<^verbatim>\<open>collapseTree\<close> on a JSON copy in the same
  way.)
\<close>

theorem renderTree_keeps_source:
  "readAt n h dat = Some t \<Longrightarrow>
     \<exists>h' cur. renderTree n h dat = Some (h', cur) \<and>
       (\<exists>m. readAt m h' cur = Some (collapseTree 5 t)) \<and>
       length h \<le> cur \<and> (\<forall>b<length h. h' ! b = h ! b) \<and>
       readAt n h' dat = Some t"
proof -
  assume r: "readAt n h dat = Some t"
  from renderTree_own [OF r] obtain h' cur F where
    rt: "renderTree n h dat = Some (h', cur)" and o: "own h' cur (collapseTree 5 t) F" and
    c: "length h \<le> cur" and l: "length h \<le> length h'" and fr: "\<forall>b<length h. h' ! b = h ! b"
    by blast
  from own_read(1) [OF o] obtain m where "\<forall>k\<ge>m. readAt k h' cur = Some (collapseTree 5 t)"
    by blast
  then have "readAt m h' cur = Some (collapseTree 5 t)" by simp
  moreover have "readAt n h' dat = Some t" using r fr l by (rule readAt_stable)
  ultimately show ?thesis using rt c fr by blast
qed

theorem renderTree_keeps_source_witness:
  "readAt 3 sixHeap 6 = Some (site sixPages) \<and>
   (\<exists>h' cur. renderTree 3 sixHeap 6 = Some (h', cur) \<and>
      (\<exists>m. readAt m h' cur = Some (collapseTree 5 (site sixPages))) \<and>
      readAt 3 h' 6 = Some (site sixPages))"
proof -
  from renderTree_keeps_source [OF readAt_sixHeap] obtain h' cur where
    "renderTree 3 sixHeap 6 = Some (h', cur)"
    "\<exists>m. readAt m h' cur = Some (collapseTree 5 (site sixPages))"
    "readAt 3 h' 6 = Some (site sixPages)"
    by blast
  with readAt_sixHeap show ?thesis by blast
qed

text \<open>
  On the six-page heap \<^verbatim>\<open>renderTree\<close> makes seven new objects for the copy (addresses
  7 to 13, the root last) and one ellipsis object (address 14).
\<close>

lemma renderTree_sixHeap:
  "map_option (\<lambda>(h', cur). (cur, length h', readAt 3 h' cur, readAt 3 h' 6))
     (renderTree 3 sixHeap 6) =
   Some (13, 15, Some (collapseTree 5 (site sixPages)), Some (site sixPages))"
  by code_simp

end
